theory Spec2Isabelle
  imports Main "HOL-Library.Option_ord"
begin

section \<open>The Steeplechase log parser (steepleparse.py)\<close>

text \<open>
  A shallow embedding of \<^verbatim>\<open>src/steepleparse.py\<close> (Python 2). Mutable objects are
  passed explicitly, every exception of the source is a value of \<open>exn\<close>, and every
  function returns the objects it mutated also when it raises, since the mutations done
  before a \<^verbatim>\<open>raise\<close> stay visible to the caller.
\<close>

subsection \<open>Characters and the regular expressions of \<^verbatim>\<open>REGEXPS\<close>\<close>

definition newline :: char where
  "newline = CHR 0x0A"

definition dquote :: char where
  "dquote = CHR 0x22"

text \<open>\<^verbatim>\<open>\s\<close> on byte strings, which is also what \<^verbatim>\<open>str.strip()\<close> removes.\<close>

definition is_space :: "char \<Rightarrow> bool" where
  "is_space c = (c \<in> set [CHR '' '', CHR 0x09, CHR 0x0A, CHR 0x0B, CHR 0x0C, CHR 0x0D])"

text \<open>\<^verbatim>\<open>\d\<close> and \<^verbatim>\<open>\w\<close> on byte strings without flags.\<close>

definition is_digit :: "char \<Rightarrow> bool" where
  "is_digit c = (let n = (of_char c :: nat) in 48 \<le> n \<and> n \<le> 57)"

definition is_word :: "char \<Rightarrow> bool" where
  "is_word c = (let n = (of_char c :: nat) in
     (48 \<le> n \<and> n \<le> 57) \<or> (65 \<le> n \<and> n \<le> 90) \<or> (97 \<le> n \<and> n \<le> 122) \<or> n = 95)"

definition strip :: "string \<Rightarrow> string" where
  "strip l = rev (dropWhile is_space (rev (dropWhile is_space l)))"

text \<open>A literal piece of a pattern: the rest of the subject after it, if it is there.\<close>

fun lit :: "string \<Rightarrow> string \<Rightarrow> string option" where
  "lit [] s = Some s"
| "lit (p # ps) [] = None"
| "lit (p # ps) (c # cs) = (if p = c then lit ps cs else None)"

text \<open>
  \<^verbatim>\<open>.*\<close> followed by the rest \<open>k\<close> of the pattern, with the backtracking of
  \<^verbatim>\<open>re\<close>: greedy, so the longest run of characters other than a newline is tried
  first. \<open>k\<close> gets the text matched by \<^verbatim>\<open>.*\<close> and the rest of the subject.
\<close>

fun dot_star :: "(string \<Rightarrow> string \<Rightarrow> 'a option) \<Rightarrow> string \<Rightarrow> string \<Rightarrow> 'a option" where
  "dot_star k acc [] = k acc []"
| "dot_star k acc (c # cs) =
     (if c = newline then k acc (c # cs)
      else (case dot_star k (acc @ [c]) cs of
              Some r \<Rightarrow> Some r
            | None \<Rightarrow> k acc (c # cs)))"

text \<open>\<^verbatim>\<open>.*<literal>\<close>, matched at the start of the line, as \<^verbatim>\<open>match\<close> does.\<close>

definition any_then :: "string \<Rightarrow> string \<Rightarrow> bool" where
  "any_then p l = (dot_star (\<lambda>_ r. lit p r) [] l \<noteq> None)"

text \<open>\<^verbatim>\<open>.*<literal>(.*)<literal>\<close>: the group.\<close>

definition any_then_group :: "string \<Rightarrow> string \<Rightarrow> string \<Rightarrow> string option" where
  "any_then_group p q l =
     dot_star (\<lambda>_ r. case lit p r of
                       None \<Rightarrow> None
                     | Some r' \<Rightarrow> dot_star (\<lambda>g t. case lit q t of None \<Rightarrow> None | Some _ \<Rightarrow> Some g) [] r')
              [] l"

text \<open>\<^verbatim>\<open>steeplechase INFO\s*\|\s*$\<close>\<close>

definition re_blank :: "string \<Rightarrow> bool" where
  "re_blank l =
     (case lit ''steeplechase INFO'' l of
        None \<Rightarrow> False
      | Some r \<Rightarrow> (case dropWhile is_space r of
                    [] \<Rightarrow> False
                  | c # r' \<Rightarrow> c = CHR ''|'' \<and> list_all is_space r'))"

text \<open>\<^verbatim>\<open>.*Log output for (.*):\<close>\<close>

definition re_client_start :: "string \<Rightarrow> string option" where
  "re_client_start l = any_then_group ''Log output for '' '':'' l"

text \<open>\<^verbatim>\<open>.*<<<<<<<\<close>\<close>

definition re_client_end :: "string \<Rightarrow> bool" where
  "re_client_end l = any_then ''<<<<<<<'' l"

text \<open>\<^verbatim>\<open>steeplechase ERROR\<close>\<close>

definition re_sc_error :: "string \<Rightarrow> bool" where
  "re_sc_error l = (lit ''steeplechase ERROR'' l \<noteq> None)"

text \<open>\<^verbatim>\<open>.*Run step: INTERVAL_COMMAND\<close>\<close>

definition re_session_start :: "string \<Rightarrow> bool" where
  "re_session_start l = any_then ''Run step: INTERVAL_COMMAND'' l"

text \<open>\<^verbatim>\<open>.*STATS \((.*)\):\<close>\<close>

definition re_stats_block :: "string \<Rightarrow> string option" where
  "re_stats_block l = any_then_group ''STATS ('' ''):'' l"

text \<open>\<^verbatim>\<open>.*{"action":"test_unexpected_fail"\<close>\<close>

definition action_prefix :: string where
  "action_prefix = ''{'' @ [dquote] @ ''action'' @ [dquote] @ '':'' @ [dquote]"

definition re_test_failure :: "string \<Rightarrow> bool" where
  "re_test_failure l = any_then (action_prefix @ ''test_unexpected_fail'' @ [dquote]) l"

text \<open>\<^verbatim>\<open>.*{"action":"(test\w*)"\<close>: the group.\<close>

definition re_test_result :: "string \<Rightarrow> string option" where
  "re_test_result l =
     dot_star (\<lambda>_ r. case lit (action_prefix @ ''test'') r of
                       None \<Rightarrow> None
                     | Some r' \<Rightarrow> (case lit [dquote] (dropWhile is_word r') of
                                    None \<Rightarrow> None
                                  | Some _ \<Rightarrow> Some (''test'' @ takeWhile is_word r')))
              [] l"

text \<open>\<^verbatim>\<open>.*Test finished\<close>\<close>

definition re_test_finished :: "string \<Rightarrow> bool" where
  "re_test_finished l = any_then ''Test finished'' l"

text \<open>\<^verbatim>\<open>.*Passed: (\d*)\<close> and \<^verbatim>\<open>.*Failed: (\d*)\<close>: the group.\<close>

definition any_then_digits :: "string \<Rightarrow> string \<Rightarrow> string option" where
  "any_then_digits p l =
     dot_star (\<lambda>_ r. case lit p r of None \<Rightarrow> None | Some r' \<Rightarrow> Some (takeWhile is_digit r')) [] l"

definition re_total_passed :: "string \<Rightarrow> string option" where
  "re_total_passed l = any_then_digits ''Passed: '' l"

definition re_total_failed :: "string \<Rightarrow> string option" where
  "re_total_failed l = any_then_digits ''Failed: '' l"

subsection \<open>Exceptions and the interpreter state\<close>

text \<open>
  \<open>StopIteration\<close> carries \<^verbatim>\<open>args\<close>: \<open>Some n\<close> for \<^verbatim>\<open>StopIteration(number)\<close>
  raised by the body of the generator, \<open>None\<close> for the bare \<^verbatim>\<open>StopIteration\<close> of a
  generator that has already finished.
\<close>

datatype exn =
    StopIteration "nat option"
  | Client_Early_Exit_Error nat
  | AttributeError
  | IndexError
  | ValueError
  | TypeError

type_synonym anomaly = "nat \<times> string"

text \<open>
  Where the generator \<^verbatim>\<open>line_reader\<close> is suspended: not started, at
  \<^verbatim>\<open>yield number, line.strip()\<close>, at \<^verbatim>\<open>yield None\<close>, or finished.
\<close>

datatype gen_state = Fresh | At_line | At_none | Finished

text \<open>
  The state the functions share: the generator (the lines of the file it has not read,
  its locals \<^verbatim>\<open>number\<close> and \<^verbatim>\<open>line\<close>, where it is suspended), the contents of
  the module-level list \<^verbatim>\<open>_anomalies\<close>, and the number of list objects allocated for
  an \<^verbatim>\<open>'anomalies'\<close> entry so far.
\<close>

record pstate =
  rd_rest :: "string list"
  rd_number :: nat
  rd_line :: string
  rd_state :: gen_state
  anomalies :: "anomaly list"
  allocated :: nat

definition log_anomaly :: "nat \<Rightarrow> string \<Rightarrow> pstate \<Rightarrow> pstate" where
  "log_anomaly number line s = s\<lparr>anomalies := anomalies s @ [(number, line)]\<rparr>"

definition check_for_anomalies :: "nat \<Rightarrow> string \<Rightarrow> pstate \<Rightarrow> pstate" where
  "check_for_anomalies number line s = (if re_sc_error line then log_anomaly number line s else s)"

text \<open>\<^verbatim>\<open>line_reader(filename)\<close>: a new generator over the lines of the file.\<close>

definition line_reader :: "string list \<Rightarrow> pstate \<Rightarrow> pstate" where
  "line_reader file s = s\<lparr>rd_rest := file, rd_number := 0, rd_line := [], rd_state := Fresh\<rparr>"

text \<open>\<^verbatim>\<open>reader.next()\<close>, which is also what a \<^verbatim>\<open>for\<close> loop over the reader calls.\<close>

definition reader_next :: "pstate \<Rightarrow> (exn + nat \<times> string) \<times> pstate" where
  "reader_next s =
     (case rd_state s of
        Finished \<Rightarrow> (Inl (StopIteration None), s)
      | At_none \<Rightarrow> (Inr (rd_number s, strip (rd_line s)), s\<lparr>rd_state := At_line\<rparr>)
      | _ \<Rightarrow> (case rd_rest s of
                [] \<Rightarrow> (Inl (StopIteration (Some (rd_number s))), s\<lparr>rd_state := Finished\<rparr>)
              | l # ls \<Rightarrow>
                  (Inr (rd_number s + 1, strip l),
                   check_for_anomalies (rd_number s + 1) l
                     (s\<lparr>rd_rest := ls, rd_number := rd_number s + 1, rd_line := l,
                        rd_state := At_line\<rparr>))))"

text \<open>\<^verbatim>\<open>requeue_line(reader)\<close>, that is \<^verbatim>\<open>reader.send(True)\<close>.\<close>

definition requeue_line :: "pstate \<Rightarrow> (exn + unit) \<times> pstate" where
  "requeue_line s =
     (case rd_state s of
        Fresh \<Rightarrow> (Inl TypeError, s)
      | Finished \<Rightarrow> (Inl (StopIteration None), s)
      | _ \<Rightarrow> (Inr (), s\<lparr>rd_state := At_none\<rparr>))"


text \<open>
  The reading still ahead of the generator: two for each unread line, one more when a
  delivered line can still be given again. Every loop of the parser ends because each of
  its rounds lowers it.
\<close>

definition rsize :: "pstate \<Rightarrow> nat" where
  "rsize s =
     (case rd_state s of
        Finished \<Rightarrow> 0
      | At_none \<Rightarrow> 2 * length (rd_rest s) + 2
      | _ \<Rightarrow> 2 * length (rd_rest s) + 1)"

lemma rsize_log_anomaly [simp]: "rsize (log_anomaly n l s) = rsize s"
  by (simp add: rsize_def log_anomaly_def split: gen_state.splits)

lemma rsize_check_for_anomalies [simp]: "rsize (check_for_anomalies n l s) = rsize s"
  by (simp add: check_for_anomalies_def)

lemma reader_next_rsize: "reader_next s = (Inr x, s') \<Longrightarrow> rsize s' < rsize s"
  by (auto simp: reader_next_def rsize_def check_for_anomalies_def log_anomaly_def
           split: gen_state.splits list.splits if_splits)

lemma reader_next_rsize_le: "reader_next s = (r, s') \<Longrightarrow> rsize s' \<le> rsize s"
  by (auto simp: reader_next_def rsize_def check_for_anomalies_def log_anomaly_def
           split: gen_state.splits list.splits if_splits)

lemma requeue_line_rsize: "requeue_line s = (r, s') \<Longrightarrow> rsize s' \<le> rsize s + 1"
  by (auto simp: requeue_line_def rsize_def split: gen_state.splits)

subsection \<open>The results document\<close>

record block =
  b_timestamp :: string
  b_failed_tests :: "(nat \<times> string) list"

record client_results =
  c_name :: "string option"
  c_blocks :: "nat option"
  c_session_runtime :: "int option"
  c_longest_pass :: "int option"
  c_setup_failures :: "(nat \<times> string) list"
  c_cleanup_failures :: "(nat \<times> string) list"
  c_session_failures :: "(nat \<times> string) list"
  c_failed_blocks :: "block list"

text \<open>
  The value of \<^verbatim>\<open>results['anomalies']\<close> is a reference to a list object: the
  module-level \<^verbatim>\<open>_anomalies\<close>, or the empty list that the \<open>n\<close>-th call of
  \<^verbatim>\<open>create_results\<close> allocated, which nothing ever appends to.
\<close>

datatype list_ref = Module_anomalies | Fresh_list nat

record results =
  r_clients :: "client_results list"
  r_session_runtime :: "int option"
  r_total_passed :: "int option"
  r_total_failed :: "int option"
  r_anomalies :: list_ref

definition deref :: "pstate \<Rightarrow> list_ref \<Rightarrow> anomaly list" where
  "deref s r = (case r of Module_anomalies \<Rightarrow> anomalies s | Fresh_list _ \<Rightarrow> [])"


definition create_client_results :: client_results where
  "create_client_results =
     \<lparr>c_name = None, c_blocks = None, c_session_runtime = None, c_longest_pass = None,
      c_setup_failures = [], c_cleanup_failures = [], c_session_failures = [],
      c_failed_blocks = []\<rparr>"

subsection \<open>The stats block parser\<close>

text \<open>The first loop of \<^verbatim>\<open>process_stats_block\<close>: the stats list and the blank lines.\<close>

function stats_list_loop :: "bool \<Rightarrow> pstate \<Rightarrow> (exn + unit) \<times> pstate" where
  "stats_list_loop in_blank s =
     (case reader_next s of
        (Inl e, s1) \<Rightarrow> (Inl e, s1)
      | (Inr (number, line), s1) \<Rightarrow>
          if re_blank line then stats_list_loop True s1
          else if in_blank then requeue_line s1
          else stats_list_loop in_blank s1)"
  by pat_completeness auto
termination
  by (relation "measure (\<lambda>(b, s). rsize s)") (auto dest: reader_next_rsize [OF sym])

text \<open>The second loop: the test results, with the failed tests of the block so far.\<close>

function test_results_loop ::
  "(nat \<times> string) list \<Rightarrow> pstate \<Rightarrow> (exn + (nat \<times> string) list) \<times> pstate" where
  "test_results_loop failed_tests s =
     (case reader_next s of
        (Inl e, s1) \<Rightarrow> (Inl e, s1)
      | (Inr (number, line), s1) \<Rightarrow>
          (case re_test_result line of
             Some g \<Rightarrow>
               test_results_loop
                 (if g \<noteq> ''test_pass'' then failed_tests @ [(number, line)] else failed_tests) s1
           | None \<Rightarrow>
               (case requeue_line s1 of
                  (Inl e, s2) \<Rightarrow> (Inl e, s2)
                | (Inr _, s2) \<Rightarrow> (Inr failed_tests, s2))))"
  by pat_completeness auto
termination
  by (relation "measure (\<lambda>(f, s). rsize s)") (auto dest: reader_next_rsize [OF sym])

definition process_stats_block ::
  "pstate \<Rightarrow> client_results \<Rightarrow> bool \<Rightarrow> (exn + string \<times> bool) \<times> pstate \<times> client_results" where
  "process_stats_block s client_results just_scan =
     (case reader_next s of
        (Inl e, s1) \<Rightarrow> (Inl e, s1, client_results)
      | (Inr (number, line), s1) \<Rightarrow>
          (case re_stats_block line of
             None \<Rightarrow> (Inl AttributeError, s1, client_results)
           | Some timestamp \<Rightarrow>
               (case stats_list_loop False s1 of
                  (Inl e, s2) \<Rightarrow> (Inl e, s2, client_results)
                | (Inr _, s2) \<Rightarrow>
                    (case test_results_loop [] s2 of
                       (Inl e, s3) \<Rightarrow> (Inl e, s3, client_results)
                     | (Inr failed_tests, s3) \<Rightarrow>
                         (Inr (timestamp, failed_tests = []), s3,
                          if failed_tests \<noteq> [] \<and> \<not> just_scan
                          then client_results\<lparr>c_failed_blocks := c_failed_blocks client_results @
                                 [\<lparr>b_timestamp = timestamp, b_failed_tests = failed_tests\<rparr>]\<rparr>
                          else client_results)))))"


declare stats_list_loop.simps [simp del] test_results_loop.simps [simp del]

lemma stats_list_loop_rsize: "stats_list_loop b s = (r, s') \<Longrightarrow> rsize s' \<le> rsize s"
proof (induction b s arbitrary: r s' rule: stats_list_loop.induct)
  case (1 in_blank s)
  obtain x s1 where n: "reader_next s = (x, s1)"
    by (cases "reader_next s")
  show ?case
  proof (cases x)
    case (Inl e)
    with n "1.prems" show ?thesis
      by (auto simp: stats_list_loop.simps [of _ s] dest: reader_next_rsize_le)
  next
    case (Inr nl)
    obtain number line where nl: "nl = (number, line)"
      by (cases nl)
    from n Inr nl have lt: "rsize s1 < rsize s"
      by (auto dest: reader_next_rsize)
    show ?thesis
    proof (cases "re_blank line")
      case True
      with n Inr nl "1.prems" have "stats_list_loop True s1 = (r, s')"
        by (simp add: stats_list_loop.simps [of _ s])
      from "1.IH"(1) [OF n [symmetric] Inr nl [symmetric] True this] lt show ?thesis
        by simp
    next
      case False
      show ?thesis
      proof (cases in_blank)
        case True
        with False n Inr nl "1.prems" have "requeue_line s1 = (r, s')"
          by (simp add: stats_list_loop.simps [of _ s])
        with lt show ?thesis
          by (auto dest: requeue_line_rsize)
      next
        case nb: False
        with False n Inr nl "1.prems" have "stats_list_loop in_blank s1 = (r, s')"
          by (simp add: stats_list_loop.simps [of _ s])
        from "1.IH"(2) [OF n [symmetric] Inr nl [symmetric] False nb this] lt show ?thesis
          by simp
      qed
    qed
  qed
qed

lemma test_results_loop_rsize: "test_results_loop f s = (r, s') \<Longrightarrow> rsize s' \<le> rsize s"
proof (induction f s arbitrary: r s' rule: test_results_loop.induct)
  case (1 failed_tests s)
  obtain x s1 where n: "reader_next s = (x, s1)"
    by (cases "reader_next s")
  show ?case
  proof (cases x)
    case (Inl e)
    with n "1.prems" show ?thesis
      by (auto simp: test_results_loop.simps [of _ s] dest: reader_next_rsize_le)
  next
    case (Inr nl)
    obtain number line where nl: "nl = (number, line)"
      by (cases nl)
    from n Inr nl have lt: "rsize s1 < rsize s"
      by (auto dest: reader_next_rsize)
    show ?thesis
    proof (cases "re_test_result line")
      case None
      with n Inr nl "1.prems" obtain q where "requeue_line s1 = (q, s')"
        by (auto simp: test_results_loop.simps [of _ s] split: prod.splits sum.splits)
      with lt show ?thesis
        by (auto dest: requeue_line_rsize)
    next
      case (Some g)
      with n Inr nl "1.prems"
      have "test_results_loop
              (if g \<noteq> ''test_pass'' then failed_tests @ [(number, line)] else failed_tests) s1 = (r, s')"
        by (simp add: test_results_loop.simps [of _ s])
      from "1.IH" [OF n [symmetric] Inr nl [symmetric] Some this] lt show ?thesis
        by simp
    qed
  qed
qed

lemma process_stats_block_rsize:
  "process_stats_block s c js = (Inr x, s', c') \<Longrightarrow> rsize s' < rsize s"
  by (auto simp: process_stats_block_def split: prod.splits sum.splits option.splits
           dest!: reader_next_rsize stats_list_loop_rsize test_results_loop_rsize)


subsection \<open>The client phase parser\<close>

definition append_failure ::
  "bool \<Rightarrow> nat \<times> string \<Rightarrow> (nat \<times> string) list \<Rightarrow> (nat \<times> string) list" where
  "append_failure m x xs = (if m then xs @ [x] else xs)"

function process_client_setup ::
  "pstate \<Rightarrow> client_results \<Rightarrow> (exn + unit) \<times> pstate \<times> client_results" where
  "process_client_setup s client_results =
     (case reader_next s of
        (Inl e, s1) \<Rightarrow> (Inl e, s1, client_results)
      | (Inr (number, line), s1) \<Rightarrow>
          if re_client_end line then (Inl (Client_Early_Exit_Error number), s1, client_results)
          else
            let client_results1 = client_results\<lparr>c_setup_failures :=
                  append_failure (re_test_failure line) (number, line)
                    (c_setup_failures client_results)\<rparr>
            in if re_session_start line
               then (case requeue_line s1 of (r, s2) \<Rightarrow> (r, s2, client_results1))
               else process_client_setup s1 client_results1)"
  by pat_completeness auto
termination
  by (relation "measure (\<lambda>(s, c). rsize s)") (auto dest: reader_next_rsize [OF sym])

text \<open>
  The timestamps of a session. \<^verbatim>\<open>dateutil.parser.parse\<close> is a library outside the
  repository: the parser is the parameter \<open>parse_dt\<close>, which gives \<open>None\<close> for a string
  the library rejects (it raises, \<^verbatim>\<open>ValueError\<close> in the model); a datetime is the number
  of microseconds it stands for, a timedelta a difference of two.
\<close>

record track =
  first_dt :: "int option"
  last_dt :: "int option"
  pass_start_dt :: "int option"
  longest_pass_delta :: "int option"

definition init_track :: track where
  "init_track = \<lparr>first_dt = None, last_dt = None, pass_start_dt = None, longest_pass_delta = None\<rparr>"

text \<open>The body of \<^verbatim>\<open>if REGEXPS['stats block'].match(line)\<close> after the block is parsed.\<close>

definition update_track :: "int \<Rightarrow> bool \<Rightarrow> track \<Rightarrow> track" where
  "update_track dt passed t =
     (let t1 = (if first_dt t = None then t\<lparr>first_dt := Some dt\<rparr> else t);
          t2 = t1\<lparr>last_dt := Some dt\<rparr>
      in if passed
         then (case pass_start_dt t2 of
                 None \<Rightarrow> t2\<lparr>pass_start_dt := Some dt\<rparr>
               | Some start \<Rightarrow>
                   (let pass_delta = dt - start
                    in (case longest_pass_delta t2 of
                          None \<Rightarrow> t2\<lparr>longest_pass_delta := Some pass_delta\<rparr>
                        | Some d \<Rightarrow> t2\<lparr>longest_pass_delta := Some (max pass_delta d)\<rparr>)))
         else t2\<lparr>pass_start_dt := None\<rparr>)"

definition session_stats ::
  "(string \<Rightarrow> int option) \<Rightarrow> string \<Rightarrow> pstate \<Rightarrow> client_results \<Rightarrow> track \<Rightarrow>
     (exn + unit) \<times> pstate \<times> client_results \<times> track" where
  "session_stats parse_dt line s client_results t =
     (if re_stats_block line = None then (Inr (), s, client_results, t)
      else
        (case requeue_line s of
           (Inl e, s1) \<Rightarrow> (Inl e, s1, client_results, t)
         | (Inr _, s1) \<Rightarrow>
             (case c_blocks client_results of
                None \<Rightarrow> (Inl TypeError, s1, client_results, t)
              | Some b \<Rightarrow>
                  (case process_stats_block s1 (client_results\<lparr>c_blocks := Some (b + 1)\<rparr>) False of
                     (Inl e, s2, client_results2) \<Rightarrow> (Inl e, s2, client_results2, t)
                   | (Inr (timestamp, passed), s2, client_results2) \<Rightarrow>
                       (case parse_dt timestamp of
                          None \<Rightarrow> (Inl ValueError, s2, client_results2, t)
                        | Some dt \<Rightarrow> (Inr (), s2, client_results2, update_track dt passed t))))))"

lemma session_stats_rsize:
  "session_stats P l s c t = (Inr x, s', c', t') \<Longrightarrow> rsize s' \<le> rsize s"
  by (auto simp: session_stats_def
           split: if_splits prod.splits sum.splits option.splits
           dest!: process_stats_block_rsize requeue_line_rsize)

text \<open>The \<^verbatim>\<open>while 1\<close> of \<^verbatim>\<open>process_client_session\<close>, inside the \<^verbatim>\<open>try\<close>.\<close>

function session_loop ::
  "(string \<Rightarrow> int option) \<Rightarrow> pstate \<Rightarrow> client_results \<Rightarrow> track \<Rightarrow>
     (exn + unit) \<times> pstate \<times> client_results \<times> track" where
  "session_loop parse_dt s client_results t =
     (case reader_next s of
        (Inl e, s1) \<Rightarrow> (Inl e, s1, client_results, t)
      | (Inr (number, line), s1) \<Rightarrow>
          if re_client_end line then (Inl (Client_Early_Exit_Error number), s1, client_results, t)
          else if re_test_finished line then (Inr (), s1, client_results, t)
          else
            (case session_stats parse_dt line s1 client_results t of
               (Inl e, s2, client_results2, t2) \<Rightarrow> (Inl e, s2, client_results2, t2)
             | (Inr _, s2, client_results2, t2) \<Rightarrow>
                 session_loop parse_dt s2
                   (client_results2\<lparr>c_session_failures :=
                      append_failure (re_test_failure line) (number, line)
                        (c_session_failures client_results2)\<rparr>)
                   t2))"
  by pat_completeness auto
termination
  by (relation "measure (\<lambda>(P, s, c, t). rsize s)")
     (auto dest!: reader_next_rsize [OF sym] session_stats_rsize [OF sym])

text \<open>
  \<^verbatim>\<open>int(delta.total_seconds())\<close>: the whole seconds of a timedelta, rounded towards
  zero.
\<close>

definition whole_seconds :: "int \<Rightarrow> int" where
  "whole_seconds d = (if 0 \<le> d then d div 1000000 else - ((- d) div 1000000))"

text \<open>
  The \<^verbatim>\<open>finally\<close> block. A timedelta is true unless it is zero, a datetime is always
  true.
\<close>

definition finalize :: "track \<Rightarrow> client_results \<Rightarrow> client_results" where
  "finalize t client_results =
     (let client_results1 =
            (case longest_pass_delta t of
               None \<Rightarrow> client_results
             | Some d \<Rightarrow>
                 if d \<noteq> 0 then client_results\<lparr>c_longest_pass := Some (whole_seconds d)\<rparr>
                 else client_results)
      in (case (last_dt t, first_dt t) of
            (Some l, Some f) \<Rightarrow> client_results1\<lparr>c_session_runtime := Some (whole_seconds (l - f))\<rparr>
          | _ \<Rightarrow> client_results1))"

definition process_client_session ::
  "(string \<Rightarrow> int option) \<Rightarrow> pstate \<Rightarrow> client_results \<Rightarrow> (exn + unit) \<times> pstate \<times> client_results" where
  "process_client_session parse_dt s client_results =
     (case session_loop parse_dt s (client_results\<lparr>c_blocks := Some 0\<rparr>) init_track of
        (r, s1, client_results1, t) \<Rightarrow> (r, s1, finalize t client_results1))"

text \<open>\<^verbatim>\<open>'%(name)s ...' % {'name': ...}\<close>: \<^verbatim>\<open>None\<close> is formatted as its name.\<close>

definition format_name :: "string option \<Rightarrow> string" where
  "format_name n = (case n of None \<Rightarrow> ''None'' | Some x \<Rightarrow> x)"

definition cleanup_stats ::
  "nat \<Rightarrow> string \<Rightarrow> pstate \<Rightarrow> client_results \<Rightarrow> (exn + unit) \<times> pstate \<times> client_results" where
  "cleanup_stats number line s client_results =
     (if re_stats_block line = None then (Inr (), s, client_results)
      else
        (case requeue_line
                (log_anomaly number
                   (format_name (c_name client_results) @ '' got stats after test finished'') s) of
           (Inl e, s1) \<Rightarrow> (Inl e, s1, client_results)
         | (Inr _, s1) \<Rightarrow>
             (case process_stats_block s1 client_results True of
                (Inl e, s2, client_results2) \<Rightarrow> (Inl e, s2, client_results2)
              | (Inr _, s2, client_results2) \<Rightarrow> (Inr (), s2, client_results2))))"

lemma cleanup_stats_rsize:
  "cleanup_stats n l s c = (Inr x, s', c') \<Longrightarrow> rsize s' \<le> rsize s"
  by (auto simp: cleanup_stats_def
           split: if_splits prod.splits sum.splits option.splits
           dest!: process_stats_block_rsize requeue_line_rsize)

function process_client_cleanup ::
  "pstate \<Rightarrow> client_results \<Rightarrow> (exn + unit) \<times> pstate \<times> client_results" where
  "process_client_cleanup s client_results =
     (case reader_next s of
        (Inl e, s1) \<Rightarrow> (Inl e, s1, client_results)
      | (Inr (number, line), s1) \<Rightarrow>
          if re_client_end line then (Inr (), s1, client_results)
          else
            (case cleanup_stats number line s1 client_results of
               (Inl e, s2, client_results2) \<Rightarrow> (Inl e, s2, client_results2)
             | (Inr _, s2, client_results2) \<Rightarrow>
                 process_client_cleanup s2
                   (client_results2\<lparr>c_cleanup_failures :=
                      append_failure (re_test_failure line) (number, line)
                        (c_cleanup_failures client_results2)\<rparr>)))"
  by pat_completeness auto
termination
  by (relation "measure (\<lambda>(s, c). rsize s)")
     (auto dest!: reader_next_rsize [OF sym] cleanup_stats_rsize [OF sym])

declare process_client_setup.simps [simp del] session_loop.simps [simp del]
  process_client_cleanup.simps [simp del]


text \<open>The body of the \<^verbatim>\<open>try\<close> of \<^verbatim>\<open>process_client\<close>.\<close>

definition client_phases ::
  "(string \<Rightarrow> int option) \<Rightarrow> pstate \<Rightarrow> client_results \<Rightarrow> (exn + unit) \<times> pstate \<times> client_results" where
  "client_phases parse_dt s client_results =
     (case process_client_setup s client_results of
        (Inl e, s1, client_results1) \<Rightarrow> (Inl e, s1, client_results1)
      | (Inr _, s1, client_results1) \<Rightarrow>
          (case process_client_session parse_dt s1 client_results1 of
             (Inl e, s2, client_results2) \<Rightarrow> (Inl e, s2, client_results2)
           | (Inr _, s2, client_results2) \<Rightarrow> process_client_cleanup s2 client_results2))"

text \<open>
  \<^verbatim>\<open>client_results\<close> is appended to \<^verbatim>\<open>results['clients']\<close> first and filled
  afterwards: the list holds the object, so it holds whatever the phases have written
  when \<^verbatim>\<open>process_client\<close> returns or raises.
\<close>

definition process_client ::
  "(string \<Rightarrow> int option) \<Rightarrow> pstate \<Rightarrow> results \<Rightarrow> (exn + unit) \<times> pstate \<times> results" where
  "process_client parse_dt s results =
     (let client_results = create_client_results;
          stored = (\<lambda>c. results\<lparr>r_clients := r_clients results @ [c]\<rparr>)
      in (case reader_next s of
            (Inl e, s1) \<Rightarrow> (Inl e, s1, stored client_results)
          | (Inr (number, line), s1) \<Rightarrow>
              (case re_client_start line of
                 None \<Rightarrow> (Inl AttributeError, s1, stored client_results)
               | Some client_name \<Rightarrow>
                   (case client_phases parse_dt s1 (client_results\<lparr>c_name := Some client_name\<rparr>) of
                      (Inl (Client_Early_Exit_Error v), s2, client_results2) \<Rightarrow>
                        (Inr (), log_anomaly v (client_name @ '' exited early'') s2,
                         stored client_results2)
                    | (r, s2, client_results2) \<Rightarrow> (r, s2, stored client_results2)))))"

subsection \<open>The orchestrator\<close>

text \<open>
  A \<^verbatim>\<open>for\<close> loop over the reader ends silently at any \<^verbatim>\<open>StopIteration\<close>.
\<close>

function process_steeplechase_setup ::
  "pstate \<Rightarrow> results \<Rightarrow> (exn + unit) \<times> pstate \<times> results" where
  "process_steeplechase_setup s results =
     (case reader_next s of
        (Inl (StopIteration a), s1) \<Rightarrow> (Inr (), s1, results)
      | (Inl e, s1) \<Rightarrow> (Inl e, s1, results)
      | (Inr (number, line), s1) \<Rightarrow>
          if re_client_start line \<noteq> None
          then (case requeue_line s1 of (r, s2) \<Rightarrow> (r, s2, results))
          else process_steeplechase_setup s1 results)"
  by pat_completeness auto
termination
  by (relation "measure (\<lambda>(s, r). rsize s)") (auto dest: reader_next_rsize [OF sym])

text \<open>\<^verbatim>\<open>for number, line in reader: pass\<close>\<close>

function drain :: "pstate \<Rightarrow> (exn + unit) \<times> pstate" where
  "drain s =
     (case reader_next s of
        (Inl (StopIteration a), s1) \<Rightarrow> (Inr (), s1)
      | (Inl e, s1) \<Rightarrow> (Inl e, s1)
      | (Inr (number, line), s1) \<Rightarrow> drain s1)"
  by pat_completeness auto
termination
  by (relation "measure rsize") (auto dest: reader_next_rsize [OF sym])

declare process_steeplechase_setup.simps [simp del] drain.simps [simp del]

text \<open>\<^verbatim>\<open>int(m.group(1))\<close> on a group of digits: the empty string is no number.\<close>

definition py_int :: "string \<Rightarrow> exn + int" where
  "py_int g =
     (if g = [] then Inl ValueError
      else Inr (foldl (\<lambda>a c. 10 * a + (int (of_char c) - 48)) 0 g))"

definition process_steeplechase_cleanup ::
  "pstate \<Rightarrow> results \<Rightarrow> (exn + unit) \<times> pstate \<times> results" where
  "process_steeplechase_cleanup s results =
     (case reader_next s of
        (Inl e, s1) \<Rightarrow> (Inl e, s1, results)
      | (Inr _, s1) \<Rightarrow>
     (case reader_next s1 of
        (Inl e, s2) \<Rightarrow> (Inl e, s2, results)
      | (Inr (number, line), s2) \<Rightarrow>
     (case re_total_passed line of
        None \<Rightarrow> (Inl AttributeError, s2, results)
      | Some g \<Rightarrow>
     (case py_int g of
        Inl e \<Rightarrow> (Inl e, s2, results)
      | Inr passed \<Rightarrow>
     (let results1 = results\<lparr>r_total_passed := Some passed\<rparr>
      in
     (case reader_next s2 of
        (Inl e, s3) \<Rightarrow> (Inl e, s3, results1)
      | (Inr (number, line), s3) \<Rightarrow>
     (case re_total_failed line of
        None \<Rightarrow> (Inl AttributeError, s3, results1)
      | Some g \<Rightarrow>
     (case py_int g of
        Inl e \<Rightarrow> (Inl e, s3, results1)
      | Inr failed \<Rightarrow>
     (case drain s3 of
        (r, s4) \<Rightarrow> (r, s4, results1\<lparr>r_total_failed := Some failed\<rparr>))))))))))"

definition process_log ::
  "(string \<Rightarrow> int option) \<Rightarrow> pstate \<Rightarrow> results \<Rightarrow> (exn + unit) \<times> pstate \<times> results" where
  "process_log parse_dt s results =
     (case process_steeplechase_setup s results of
        (Inl e, s1, results1) \<Rightarrow> (Inl e, s1, results1)
      | (Inr _, s1, results1) \<Rightarrow>
     (case process_client parse_dt s1 results1 of
        (Inl e, s2, results2) \<Rightarrow> (Inl e, s2, results2)
      | (Inr _, s2, results2) \<Rightarrow>
     (case process_client parse_dt s2 results2 of
        (Inl e, s3, results3) \<Rightarrow> (Inl e, s3, results3)
      | (Inr _, s3, results3) \<Rightarrow> process_steeplechase_cleanup s3 results3)))"




subsection \<open>Inputs of the examples\<close>

text \<open>A process that has just imported the module: \<^verbatim>\<open>_anomalies\<close> is empty.\<close>

definition fresh_process :: pstate where
  "fresh_process =
     \<lparr>rd_rest = [], rd_number = 0, rd_line = [], rd_state = Fresh, anomalies = [], allocated = 0\<rparr>"

text \<open>
  A date parser for the examples, which reads a timestamp that is a number of seconds.
\<close>

definition seconds_dt :: "string \<Rightarrow> int option" where
  "seconds_dt ts = (case py_int ts of Inl e \<Rightarrow> None | Inr v \<Rightarrow> Some (v * 1000000))"

text \<open>A line of a file, and a test result line with the given action.\<close>

definition ln :: "string \<Rightarrow> string" where
  "ln l = l @ [newline]"

definition result_line :: "string \<Rightarrow> string" where
  "result_line a = ''steeplechase INFO | '' @ action_prefix @ a @ [dquote] @ ''}''"

section \<open>The line cursor\<close>

text \<open>
  Claim C9. Whenever the reader has delivered a line, requeuing it and asking for the next
  line gives the same pair of line number and text again and leaves the reader exactly
  as it was after the first delivery, so neither the line number nor the anomaly scan
  advances on the replay. The number delivered is the reader's count; a replay repeats
  the count, a new line is the head of the unread lines and raises the count by one, and
  the first line of a file has number 1.
\<close>

theorem requeue_then_next_replays:
  assumes "reader_next s = (Inr (n, l), s1)"
  shows "(\<exists>s2. requeue_line s1 = (Inr (), s2) \<and> reader_next s2 = (Inr (n, l), s1))
       \<and> rd_number s1 = n
       \<and> (if rd_state s = At_none
          then n = rd_number s \<and> rd_rest s1 = rd_rest s \<and> anomalies s1 = anomalies s
          else n = rd_number s + 1 \<and> (\<exists>raw. rd_rest s = raw # rd_rest s1 \<and> l = strip raw))
       \<and> fst (reader_next (line_reader (raw0 # file) g)) = Inr (1, strip raw0)"
proof -
  have first: "fst (reader_next (line_reader (raw0 # file) g)) = Inr (1, strip raw0)"
    by (simp add: reader_next_def line_reader_def)
  show ?thesis
  proof (cases "rd_state s = At_none")
    case True
    with assms have "s1 = s\<lparr>rd_state := At_line\<rparr>" and "n = rd_number s" and "l = strip (rd_line s)"
      by (auto simp: reader_next_def)
    with True first show ?thesis
      by (simp add: requeue_line_def reader_next_def)
  next
    case False
    with assms obtain raw ls where r: "rd_rest s = raw # ls"
      by (cases "rd_rest s") (auto simp: reader_next_def split: gen_state.splits)
    with False assms
    have s1: "s1 = check_for_anomalies (rd_number s + 1) raw
                (s\<lparr>rd_rest := ls, rd_number := rd_number s + 1, rd_line := raw, rd_state := At_line\<rparr>)"
      and n: "n = rd_number s + 1" and l: "l = strip raw"
      by (auto simp: reader_next_def split: gen_state.splits)
    from s1 have st: "rd_state s1 = At_line" "rd_number s1 = rd_number s + 1"
      "rd_line s1 = raw" "rd_rest s1 = ls"
      by (simp_all add: check_for_anomalies_def log_anomaly_def)
    have "s1\<lparr>rd_state := At_none, rd_state := At_line\<rparr> = s1"
      using st by simp
    with st n l have "\<exists>s2. requeue_line s1 = (Inr (), s2) \<and> reader_next s2 = (Inr (n, l), s1)"
      by (simp add: requeue_line_def reader_next_def)
    with False first st n l r show ?thesis
      by simp
  qed
qed

theorem requeue_then_next_replays_witness:
  "reader_next (line_reader [ln ''  first line'', ln ''second''] fresh_process)
     = (Inr (1, ''first line''),
        \<lparr>rd_rest = [ln ''second''], rd_number = 1, rd_line = ln ''  first line'',
         rd_state = At_line, anomalies = [], allocated = 0\<rparr>)
   \<and> (\<exists>s2. requeue_line
              \<lparr>rd_rest = [ln ''second''], rd_number = 1, rd_line = ln ''  first line'',
               rd_state = At_line, anomalies = [], allocated = 0\<rparr> = (Inr (), s2)
          \<and> reader_next s2
              = (Inr (1, ''first line''),
                 \<lparr>rd_rest = [ln ''second''], rd_number = 1, rd_line = ln ''  first line'',
                  rd_state = At_line, anomalies = [], allocated = 0\<rparr>))"
proof -
  have h: "reader_next (line_reader [ln ''  first line'', ln ''second''] fresh_process)
     = (Inr (1, ''first line''),
        \<lparr>rd_rest = [ln ''second''], rd_number = 1, rd_line = ln ''  first line'',
         rd_state = At_line, anomalies = [], allocated = 0\<rparr>)"
    by (simp add: reader_next_def line_reader_def fresh_process_def ln_def strip_def
          is_space_def newline_def check_for_anomalies_def re_sc_error_def)
  from requeue_then_next_replays [OF h] h show ?thesis
    by blast
qed


section \<open>Reasoning about the loops\<close>

text \<open>
  One induction rule for each loop, over its rounds, with the result of the whole run
  fixed: a property of the loop is then a property of each way a round can go.
\<close>

lemma stats_list_loop_induct [consumes 1, case_names eof blank stop skip]:
  assumes run: "stats_list_loop b s = (r, s')"
    and eof: "\<And>b s e. reader_next s = (Inl e, s') \<Longrightarrow> r = Inl e \<Longrightarrow> P b s"
    and blank: "\<And>b s n l s1. reader_next s = (Inr (n, l), s1) \<Longrightarrow> re_blank l \<Longrightarrow>
                 stats_list_loop True s1 = (r, s') \<Longrightarrow> P True s1 \<Longrightarrow> P b s"
    and stop: "\<And>s n l s1. reader_next s = (Inr (n, l), s1) \<Longrightarrow> \<not> re_blank l \<Longrightarrow>
                 requeue_line s1 = (r, s') \<Longrightarrow> P True s"
    and skip: "\<And>s n l s1. reader_next s = (Inr (n, l), s1) \<Longrightarrow> \<not> re_blank l \<Longrightarrow>
                 stats_list_loop False s1 = (r, s') \<Longrightarrow> P False s1 \<Longrightarrow> P False s"
  shows "P b s"
  using run
proof (induction b s rule: stats_list_loop.induct)
  case (1 in_blank s)
  obtain x s1 where n: "reader_next s = (x, s1)"
    by (cases "reader_next s")
  show ?case
  proof (cases x)
    case (Inl e)
    with n "1.prems" show ?thesis
      by (auto simp: stats_list_loop.simps [of _ s] intro: eof)
  next
    case (Inr nl)
    obtain number line where nl: "nl = (number, line)"
      by (cases nl)
    note ih = "1.IH" [OF n [symmetric] Inr nl [symmetric]]
    from n Inr nl have rd: "reader_next s = (Inr (number, line), s1)"
      by simp
    show ?thesis
    proof (cases "re_blank line")
      case True
      with rd "1.prems" have loop: "stats_list_loop True s1 = (r, s')"
        by (simp add: stats_list_loop.simps [of _ s])
      from blank [OF rd True loop ih(1) [OF True loop]] show ?thesis .
    next
      case False
      show ?thesis
      proof (cases in_blank)
        case True
        with False rd "1.prems" have "requeue_line s1 = (r, s')"
          by (simp add: stats_list_loop.simps [of _ s])
        from stop [OF rd False this] True show ?thesis
          by simp
      next
        case nb: False
        with False rd "1.prems" have loop: "stats_list_loop False s1 = (r, s')"
          by (simp add: stats_list_loop.simps [of _ s])
        from nb have loop': "stats_list_loop in_blank s1 = (r, s')"
          using loop by simp
        from skip [OF rd False loop] ih(2) [OF False nb loop'] nb show ?thesis
          by simp
      qed
    qed
  qed
qed


lemma test_results_loop_induct [consumes 1, case_names eof result stop]:
  assumes run: "test_results_loop f s = (r, s')"
    and eof: "\<And>f s e. reader_next s = (Inl e, s') \<Longrightarrow> r = Inl e \<Longrightarrow> P f s"
    and result: "\<And>f s n l s1 g. reader_next s = (Inr (n, l), s1) \<Longrightarrow> re_test_result l = Some g \<Longrightarrow>
         test_results_loop (if g \<noteq> ''test_pass'' then f @ [(n, l)] else f) s1 = (r, s') \<Longrightarrow>
         P (if g \<noteq> ''test_pass'' then f @ [(n, l)] else f) s1 \<Longrightarrow> P f s"
    and stop: "\<And>f s n l s1 q. reader_next s = (Inr (n, l), s1) \<Longrightarrow> re_test_result l = None \<Longrightarrow>
         requeue_line s1 = (q, s') \<Longrightarrow> r = (case q of Inl e \<Rightarrow> Inl e | Inr _ \<Rightarrow> Inr f) \<Longrightarrow> P f s"
  shows "P f s"
  using run
proof (induction f s rule: test_results_loop.induct)
  case (1 f s)
  obtain x s1 where n: "reader_next s = (x, s1)"
    by (cases "reader_next s")
  show ?case
  proof (cases x)
    case (Inl e)
    with n "1.prems" show ?thesis
      by (auto simp: test_results_loop.simps [of _ s] intro: eof)
  next
    case (Inr nl)
    obtain number line where nl: "nl = (number, line)"
      by (cases nl)
    note ih = "1.IH" [OF n [symmetric] Inr nl [symmetric]]
    from n Inr nl have rd: "reader_next s = (Inr (number, line), s1)"
      by simp
    show ?thesis
    proof (cases "re_test_result line")
      case None
      obtain q s2 where rq: "requeue_line s1 = (q, s2)"
        by (cases "requeue_line s1")
      with None rd "1.prems" have "s2 = s'" "r = (case q of Inl e \<Rightarrow> Inl e | Inr _ \<Rightarrow> Inr f)"
        by (auto simp: test_results_loop.simps [of _ s] split: sum.splits)
      with stop [OF rd None] rq show ?thesis
        by simp
    next
      case (Some g)
      with rd "1.prems"
      have loop: "test_results_loop (if g \<noteq> ''test_pass'' then f @ [(number, line)] else f) s1 = (r, s')"
        by (simp add: test_results_loop.simps [of _ s])
      from result [OF rd Some loop ih [OF Some loop]] show ?thesis .
    qed
  qed
qed

lemma process_client_setup_induct [consumes 1, case_names eof early start other]:
  assumes run: "process_client_setup s c = (r, s', c')"
    and eof: "\<And>s e. reader_next s = (Inl e, s') \<Longrightarrow> r = Inl e \<Longrightarrow> P s c'"
    and early: "\<And>s n l. reader_next s = (Inr (n, l), s') \<Longrightarrow> re_client_end l \<Longrightarrow>
         r = Inl (Client_Early_Exit_Error n) \<Longrightarrow> P s c'"
    and start: "\<And>s c n l s1. reader_next s = (Inr (n, l), s1) \<Longrightarrow> \<not> re_client_end l \<Longrightarrow>
         re_session_start l \<Longrightarrow> requeue_line s1 = (r, s') \<Longrightarrow>
         c' = c\<lparr>c_setup_failures := append_failure (re_test_failure l) (n, l) (c_setup_failures c)\<rparr> \<Longrightarrow>
         P s c"
    and other: "\<And>s c n l s1. reader_next s = (Inr (n, l), s1) \<Longrightarrow> \<not> re_client_end l \<Longrightarrow>
         \<not> re_session_start l \<Longrightarrow>
         process_client_setup s1
           (c\<lparr>c_setup_failures := append_failure (re_test_failure l) (n, l) (c_setup_failures c)\<rparr>)
           = (r, s', c') \<Longrightarrow>
         P s1 (c\<lparr>c_setup_failures := append_failure (re_test_failure l) (n, l) (c_setup_failures c)\<rparr>) \<Longrightarrow>
         P s c"
  shows "P s c"
  using run
proof (induction s c rule: process_client_setup.induct)
  case (1 s c)
  obtain x s1 where n: "reader_next s = (x, s1)"
    by (cases "reader_next s")
  show ?case
  proof (cases x)
    case (Inl e)
    with n "1.prems" show ?thesis
      by (auto simp: process_client_setup.simps [of s] intro: eof)
  next
    case (Inr nl)
    obtain number line where nl: "nl = (number, line)"
      by (cases nl)
    note ih = "1.IH" [OF n [symmetric] Inr nl [symmetric]]
    from n Inr nl have rd: "reader_next s = (Inr (number, line), s1)"
      by simp
    let ?c1 = "c\<lparr>c_setup_failures :=
                  append_failure (re_test_failure line) (number, line) (c_setup_failures c)\<rparr>"
    show ?thesis
    proof (cases "re_client_end line")
      case True
      with rd "1.prems" show ?thesis
        by (auto simp: process_client_setup.simps [of s] intro: early)
    next
      case False
      show ?thesis
      proof (cases "re_session_start line")
        case True
        with False rd "1.prems" have "requeue_line s1 = (r, s')" "c' = ?c1"
          by (auto simp: process_client_setup.simps [of s] Let_def split: prod.splits)
        from start [OF rd False True this] show ?thesis .
      next
        case ns: False
        with False rd "1.prems" have loop: "process_client_setup s1 ?c1 = (r, s', c')"
          by (simp add: process_client_setup.simps [of s] Let_def)
        from other [OF rd False ns loop ih [OF False refl ns loop]] show ?thesis .
      qed
    qed
  qed
qed


lemma session_loop_induct [consumes 1, case_names eof early finished failed round]:
  assumes run: "session_loop D s c t = (r, s', c', t')"
    and eof: "\<And>s e. reader_next s = (Inl e, s') \<Longrightarrow> r = Inl e \<Longrightarrow> P s c' t'"
    and early: "\<And>s n l. reader_next s = (Inr (n, l), s') \<Longrightarrow> re_client_end l \<Longrightarrow>
         r = Inl (Client_Early_Exit_Error n) \<Longrightarrow> P s c' t'"
    and finished: "\<And>s n l. reader_next s = (Inr (n, l), s') \<Longrightarrow> \<not> re_client_end l \<Longrightarrow>
         re_test_finished l \<Longrightarrow> r = Inr () \<Longrightarrow> P s c' t'"
    and failed: "\<And>s c t n l s1 e. reader_next s = (Inr (n, l), s1) \<Longrightarrow> \<not> re_client_end l \<Longrightarrow>
         \<not> re_test_finished l \<Longrightarrow> session_stats D l s1 c t = (Inl e, s', c', t') \<Longrightarrow>
         r = Inl e \<Longrightarrow> P s c t"
    and round: "\<And>s c t n l s1 u s2 c2 t2. reader_next s = (Inr (n, l), s1) \<Longrightarrow>
         \<not> re_client_end l \<Longrightarrow> \<not> re_test_finished l \<Longrightarrow>
         session_stats D l s1 c t = (Inr u, s2, c2, t2) \<Longrightarrow>
         session_loop D s2
           (c2\<lparr>c_session_failures := append_failure (re_test_failure l) (n, l) (c_session_failures c2)\<rparr>)
           t2 = (r, s', c', t') \<Longrightarrow>
         P s2
           (c2\<lparr>c_session_failures := append_failure (re_test_failure l) (n, l) (c_session_failures c2)\<rparr>)
           t2 \<Longrightarrow>
         P s c t"
  shows "P s c t"
proof -
  have "session_loop D0 s c t = (r, s', c', t') \<Longrightarrow> D0 = D \<Longrightarrow> P s c t" for D0
  proof (induction D0 s c t rule: session_loop.induct)
  case (1 D0 s c t)
  from "1.prems" have run: "session_loop D s c t = (r, s', c', t')"
    by simp
  obtain x s1 where n: "reader_next s = (x, s1)"
    by (cases "reader_next s")
  show ?case
  proof (cases x)
    case (Inl e)
    with n run show ?thesis
      by (auto simp: session_loop.simps [of D s] intro: eof)
  next
    case (Inr nl)
    obtain number line where nl: "nl = (number, line)"
      by (cases nl)
    note ih = "1.IH" [OF n [symmetric] Inr nl [symmetric]]
    from n Inr nl have rd: "reader_next s = (Inr (number, line), s1)"
      by simp
    show ?thesis
    proof (cases "re_client_end line")
      case True
      with rd run show ?thesis
        by (auto simp: session_loop.simps [of D s] intro: early)
    next
      case False
      show ?thesis
      proof (cases "re_test_finished line")
        case True
        with False rd run show ?thesis
          by (auto simp: session_loop.simps [of D s] intro: finished)
      next
        case nf: False
        obtain y s2 c2 t2 where st: "session_stats D line s1 c t = (y, s2, c2, t2)"
          by (cases "session_stats D line s1 c t")
        show ?thesis
        proof (cases y)
          case (Inl e)
          with st False nf rd run
          have "session_stats D line s1 c t = (Inl e, s', c', t')" "r = Inl e"
            by (auto simp: session_loop.simps [of D s])
          from failed [OF rd False nf this] show ?thesis .
        next
          case (Inr u)
          let ?c3 = "c2\<lparr>c_session_failures :=
                       append_failure (re_test_failure line) (number, line) (c_session_failures c2)\<rparr>"
          from Inr st have st': "session_stats D line s1 c t = (Inr u, s2, c2, t2)"
            by simp
          with False nf rd run have loop: "session_loop D s2 ?c3 t2 = (r, s', c', t')"
            by (simp add: session_loop.simps [of D s])
          have "P s2 ?c3 t2"
            using ih [OF False nf _ refl refl refl _ "1.prems"(2)] st' loop "1.prems"(2)
            by simp
          from round [OF rd False nf st' loop this] show ?thesis .
        qed
      qed
    qed
  qed
  qed
  from this [OF run refl] show ?thesis .
qed


lemma process_client_cleanup_induct [consumes 1, case_names eof ended failed round]:
  assumes run: "process_client_cleanup s c = (r, s', c')"
    and eof: "\<And>s e. reader_next s = (Inl e, s') \<Longrightarrow> r = Inl e \<Longrightarrow> P s c'"
    and ended: "\<And>s n l. reader_next s = (Inr (n, l), s') \<Longrightarrow> re_client_end l \<Longrightarrow>
         r = Inr () \<Longrightarrow> P s c'"
    and failed: "\<And>s c n l s1 e. reader_next s = (Inr (n, l), s1) \<Longrightarrow> \<not> re_client_end l \<Longrightarrow>
         cleanup_stats n l s1 c = (Inl e, s', c') \<Longrightarrow> r = Inl e \<Longrightarrow> P s c"
    and round: "\<And>s c n l s1 u s2 c2. reader_next s = (Inr (n, l), s1) \<Longrightarrow>
         \<not> re_client_end l \<Longrightarrow> cleanup_stats n l s1 c = (Inr u, s2, c2) \<Longrightarrow>
         process_client_cleanup s2
           (c2\<lparr>c_cleanup_failures := append_failure (re_test_failure l) (n, l) (c_cleanup_failures c2)\<rparr>)
           = (r, s', c') \<Longrightarrow>
         P s2
           (c2\<lparr>c_cleanup_failures := append_failure (re_test_failure l) (n, l) (c_cleanup_failures c2)\<rparr>)
         \<Longrightarrow> P s c"
  shows "P s c"
  using run
proof (induction s c rule: process_client_cleanup.induct)
  case (1 s c)
  obtain x s1 where n: "reader_next s = (x, s1)"
    by (cases "reader_next s")
  show ?case
  proof (cases x)
    case (Inl e)
    with n "1.prems" show ?thesis
      by (auto simp: process_client_cleanup.simps [of s] intro: eof)
  next
    case (Inr nl)
    obtain number line where nl: "nl = (number, line)"
      by (cases nl)
    note ih = "1.IH" [OF n [symmetric] Inr nl [symmetric]]
    from n Inr nl have rd: "reader_next s = (Inr (number, line), s1)"
      by simp
    show ?thesis
    proof (cases "re_client_end line")
      case True
      with rd "1.prems" show ?thesis
        by (auto simp: process_client_cleanup.simps [of s] intro: ended)
    next
      case False
      obtain y s2 c2 where st: "cleanup_stats number line s1 c = (y, s2, c2)"
        by (cases "cleanup_stats number line s1 c")
      show ?thesis
      proof (cases y)
        case (Inl e)
        with st False rd "1.prems"
        have "cleanup_stats number line s1 c = (Inl e, s', c')" "r = Inl e"
          by (auto simp: process_client_cleanup.simps [of s])
        from failed [OF rd False this] show ?thesis .
      next
        case (Inr u)
        let ?c3 = "c2\<lparr>c_cleanup_failures :=
                     append_failure (re_test_failure line) (number, line) (c_cleanup_failures c2)\<rparr>"
        from Inr st have st': "cleanup_stats number line s1 c = (Inr u, s2, c2)"
          by simp
        with False rd "1.prems" have loop: "process_client_cleanup s2 ?c3 = (r, s', c')"
          by (simp add: process_client_cleanup.simps [of s])
        have "P s2 ?c3"
          by (rule ih [OF False st' [symmetric] refl refl loop])
        from round [OF rd False st' loop this] show ?thesis .
      qed
    qed
  qed
qed

lemma process_steeplechase_setup_induct [consumes 1, case_names eof found other]:
  assumes run: "process_steeplechase_setup s res = (r, s', res')"
    and eof: "\<And>s a. reader_next s = (Inl (StopIteration a), s') \<Longrightarrow> r = Inr () \<Longrightarrow> P s"
    and found: "\<And>s n l s1. reader_next s = (Inr (n, l), s1) \<Longrightarrow> re_client_start l \<noteq> None \<Longrightarrow>
         requeue_line s1 = (r, s') \<Longrightarrow> P s"
    and other: "\<And>s n l s1. reader_next s = (Inr (n, l), s1) \<Longrightarrow> re_client_start l = None \<Longrightarrow>
         process_steeplechase_setup s1 res = (r, s', res') \<Longrightarrow> P s1 \<Longrightarrow> P s"
  shows "P s \<and> res' = res"
proof -
  have "process_steeplechase_setup s res0 = (r, s', res') \<Longrightarrow> res0 = res \<Longrightarrow> P s \<and> res' = res"
    for res0
  proof (induction s res0 rule: process_steeplechase_setup.induct)
  case (1 s res0)
  from "1.prems" have run: "process_steeplechase_setup s res = (r, s', res')"
    by simp
  obtain x s1 where n: "reader_next s = (x, s1)"
    by (cases "reader_next s")
  show ?case
  proof (cases x)
    case (Inl e)
    with n have "\<exists>a. e = StopIteration a"
      by (auto simp: reader_next_def split: gen_state.splits list.splits)
    with Inl n run show ?thesis
      by (auto simp: process_steeplechase_setup.simps [of s] intro: eof)
  next
    case (Inr nl)
    obtain number line where nl: "nl = (number, line)"
      by (cases nl)
    note ih = "1.IH" [OF n [symmetric] Inr nl [symmetric]]
    from n Inr nl have rd: "reader_next s = (Inr (number, line), s1)"
      by simp
    show ?thesis
    proof (cases "re_client_start line")
      case None
      with rd run have loop: "process_steeplechase_setup s1 res = (r, s', res')"
        by (simp add: process_steeplechase_setup.simps [of s])
      from ih "1.prems"(2) have "P s1 \<and> res' = res"
        using None loop by simp
      with other [OF rd None loop] show ?thesis
        by simp
    next
      case (Some g)
      with rd run have "requeue_line s1 = (r, s')" "res' = res"
        by (auto simp: process_steeplechase_setup.simps [of s] split: prod.splits)
      with found [OF rd] Some show ?thesis
        by simp
    qed
  qed
  qed
  from this [OF run refl] show ?thesis .
qed

lemma drain_induct [consumes 1, case_names eof other]:
  assumes run: "drain s = (r, s')"
    and eof: "\<And>s a. reader_next s = (Inl (StopIteration a), s') \<Longrightarrow> r = Inr () \<Longrightarrow> P s"
    and other: "\<And>s n l s1. reader_next s = (Inr (n, l), s1) \<Longrightarrow> drain s1 = (r, s') \<Longrightarrow>
         P s1 \<Longrightarrow> P s"
  shows "P s"
  using run
proof (induction s rule: drain.induct)
  case (1 s)
  obtain x s1 where n: "reader_next s = (x, s1)"
    by (cases "reader_next s")
  show ?case
  proof (cases x)
    case (Inl e)
    with n have "\<exists>a. e = StopIteration a"
      by (auto simp: reader_next_def split: gen_state.splits list.splits)
    with Inl n "1.prems" show ?thesis
      by (auto simp: drain.simps [of s] intro: eof)
  next
    case (Inr nl)
    obtain number line where nl: "nl = (number, line)"
      by (cases nl)
    from n Inr nl have rd: "reader_next s = (Inr (number, line), s1)"
      by simp
    with "1.prems" have loop: "drain s1 = (r, s')"
      by (simp add: drain.simps [of s])
    from other [OF rd loop "1.IH" [OF n [symmetric] Inr nl [symmetric] loop]] show ?thesis .
  qed
qed


subsection \<open>What every function does to the shared state\<close>

text \<open>
  The shared state changes only by reading a line, requeuing one and logging an anomaly.
\<close>

inductive evolves :: "(string \<Rightarrow> bool) \<Rightarrow> pstate \<Rightarrow> pstate \<Rightarrow> bool" for M where
  same: "evolves M s s"
| read: "evolves M s s1 \<Longrightarrow> reader_next s1 = (r, s2) \<Longrightarrow> evolves M s s2"
| requeued: "evolves M s s1 \<Longrightarrow> requeue_line s1 = (q, s2) \<Longrightarrow> evolves M s s2"
| logged: "evolves M s s1 \<Longrightarrow> M l \<Longrightarrow> evolves M s (log_anomaly n l s1)"

lemma evolves_trans_rev: "evolves M b c \<Longrightarrow> evolves M a b \<Longrightarrow> evolves M a c"
  by (induction rule: evolves.induct) (auto intro: evolves.intros)

lemma evolves_trans: "evolves M a b \<Longrightarrow> evolves M b c \<Longrightarrow> evolves M a c"
  by (rule evolves_trans_rev)

lemma evolves_next: "reader_next s = (r, s') \<Longrightarrow> evolves M s s'"
  by (rule evolves.read [OF evolves.same])

lemma evolves_requeue: "requeue_line s = (r, s') \<Longrightarrow> evolves M s s'"
  by (rule evolves.requeued [OF evolves.same])

lemma evolves_log: "M l \<Longrightarrow> evolves M s (log_anomaly n l s)"
  by (rule evolves.logged [OF evolves.same])

lemma evolves_weaken: "evolves M s s' \<Longrightarrow> (\<And>l. M l \<Longrightarrow> N l) \<Longrightarrow> evolves N s s'"
  by (induction rule: evolves.induct) (auto intro: evolves.intros)

lemma stats_list_loop_evolves: "stats_list_loop b s = (r, s') \<Longrightarrow> evolves M s s'"
  by (induction rule: stats_list_loop_induct)
     (auto intro: evolves_next evolves_requeue evolves_trans)

lemma test_results_loop_evolves: "test_results_loop f s = (r, s') \<Longrightarrow> evolves M s s'"
  by (induction rule: test_results_loop_induct)
     (auto intro: evolves_next evolves_requeue evolves_trans)

lemma process_stats_block_evolves: "process_stats_block s c js = (r, s', c') \<Longrightarrow> evolves M s s'"
  by (auto simp: process_stats_block_def split: prod.splits sum.splits option.splits
           dest!: evolves_next [where M = M] stats_list_loop_evolves [where M = M]
                  test_results_loop_evolves [where M = M]
           intro: evolves_trans)

lemma process_client_setup_evolves: "process_client_setup s c = (r, s', c') \<Longrightarrow> evolves M s s'"
  by (induction rule: process_client_setup_induct)
     (auto intro: evolves_next evolves_requeue evolves_trans)

lemma session_stats_evolves: "session_stats D l s c t = (r, s', c', t') \<Longrightarrow> evolves M s s'"
  by (auto simp: session_stats_def split: if_splits prod.splits sum.splits option.splits
           dest!: evolves_requeue [where M = M] process_stats_block_evolves [where M = M]
           intro: evolves.same evolves_trans)

lemma session_loop_evolves: "session_loop D s c t = (r, s', c', t') \<Longrightarrow> evolves M s s'"
  by (induction rule: session_loop_induct)
     (auto dest!: session_stats_evolves [where M = M] evolves_next [where M = M]
           intro: evolves_trans)

lemma process_client_session_evolves:
  "process_client_session D s c = (r, s', c') \<Longrightarrow> evolves M s s'"
  by (auto simp: process_client_session_def split: prod.splits dest: session_loop_evolves)

text \<open>The cleanup and all above it also log anomalies of their own.\<close>

abbreviation any_message :: "string \<Rightarrow> bool" where
  "any_message \<equiv> \<lambda>_. True"

lemma cleanup_stats_evolves: "cleanup_stats n l s c = (r, s', c') \<Longrightarrow> evolves any_message s s'"
  by (auto simp: cleanup_stats_def split: if_splits prod.splits sum.splits option.splits
           dest!: evolves_requeue [where M = any_message]
                  process_stats_block_evolves [where M = any_message]
           intro: evolves.same evolves_trans evolves_log)

lemma process_client_cleanup_evolves:
  "process_client_cleanup s c = (r, s', c') \<Longrightarrow> evolves any_message s s'"
  by (induction rule: process_client_cleanup_induct)
     (auto dest!: cleanup_stats_evolves evolves_next [where M = any_message]
           intro: evolves_trans)

lemma client_phases_evolves: "client_phases D s c = (r, s', c') \<Longrightarrow> evolves any_message s s'"
  by (auto simp: client_phases_def split: prod.splits sum.splits
           dest!: process_client_setup_evolves [where M = any_message]
                  process_client_session_evolves [where M = any_message]
                  process_client_cleanup_evolves
           intro: evolves_trans)

lemma process_client_evolves:
  "process_client D s res = (r, s', res') \<Longrightarrow> evolves any_message s s'"
  by (auto simp: process_client_def Let_def split: prod.splits sum.splits option.splits exn.splits
           dest!: evolves_next [where M = any_message] client_phases_evolves
           intro: evolves_trans evolves.logged)

lemma process_steeplechase_setup_evolves:
  "process_steeplechase_setup s res = (r, s', res') \<Longrightarrow> evolves M s s'"
proof -
  assume "process_steeplechase_setup s res = (r, s', res')"
  then have "evolves M s s' \<and> res' = res"
    by (induction rule: process_steeplechase_setup_induct)
       (auto intro: evolves_next evolves_requeue evolves_trans)
  then show ?thesis ..
qed

lemma drain_evolves: "drain s = (r, s') \<Longrightarrow> evolves M s s'"
  by (induction rule: drain_induct) (auto intro: evolves_next evolves_trans)

lemma process_steeplechase_cleanup_evolves:
  "process_steeplechase_cleanup s res = (r, s', res') \<Longrightarrow> evolves M s s'"
  by (auto simp: process_steeplechase_cleanup_def Let_def
           split: prod.splits sum.splits option.splits
           dest!: evolves_next [where M = M] drain_evolves [where M = M] intro: evolves_trans)

lemma process_log_evolves: "process_log D s res = (r, s', res') \<Longrightarrow> evolves any_message s s'"
  by (auto simp: process_log_def split: prod.splits sum.splits
           dest!: process_steeplechase_setup_evolves [where M = any_message] process_client_evolves
                  process_steeplechase_cleanup_evolves [where M = any_message]
           intro: evolves_trans)


lemma evolves_number: "evolves M s s' \<Longrightarrow> rd_number s \<le> rd_number s'"
  by (induction rule: evolves.induct)
     (auto simp: reader_next_def requeue_line_def check_for_anomalies_def log_anomaly_def
           split: gen_state.splits list.splits if_splits)

lemma evolves_allocated: "evolves M s s' \<Longrightarrow> allocated s' = allocated s"
  by (induction rule: evolves.induct)
     (auto simp: reader_next_def requeue_line_def check_for_anomalies_def log_anomaly_def
           split: gen_state.splits list.splits if_splits)

subsection \<open>The lines still to be delivered\<close>

text \<open>
  The pairs of line number and stripped text that the reader will deliver from a state,
  in order: the requeued line first, when there is one, then the unread lines.
\<close>

fun numbered :: "nat \<Rightarrow> string list \<Rightarrow> (nat \<times> string) list" where
  "numbered n [] = []"
| "numbered n (l # ls) = (n + 1, strip l) # numbered (n + 1) ls"

definition upcoming :: "pstate \<Rightarrow> (nat \<times> string) list" where
  "upcoming s =
     (case rd_state s of
        Finished \<Rightarrow> []
      | At_none \<Rightarrow> (rd_number s, strip (rd_line s)) # numbered (rd_number s) (rd_rest s)
      | _ \<Rightarrow> numbered (rd_number s) (rd_rest s))"

lemma upcoming_log_anomaly [simp]: "upcoming (log_anomaly n l s) = upcoming s"
  by (simp add: upcoming_def log_anomaly_def split: gen_state.splits)

lemma reader_next_Inr:
  assumes "reader_next s = (Inr x, s1)"
  shows "upcoming s = x # upcoming s1" and "rd_state s1 = At_line"
    and "x = (rd_number s1, strip (rd_line s1))"
  using assms
  by (auto simp: reader_next_def upcoming_def check_for_anomalies_def log_anomaly_def
           split: gen_state.splits list.splits if_splits)

lemma reader_next_Inl:
  assumes "reader_next s = (Inl e, s1)"
  shows "upcoming s = []" and "\<exists>a. e = StopIteration a" and "rd_state s1 = Finished"
  using assms
  by (auto simp: reader_next_def upcoming_def split: gen_state.splits list.splits)

lemma upcoming_Nil:
  "upcoming s = [] \<Longrightarrow> \<exists>a s1. reader_next s = (Inl (StopIteration a), s1)"
  by (cases "rd_rest s")
     (auto simp: reader_next_def upcoming_def split: gen_state.splits)

lemma upcoming_Cons:
  assumes "upcoming s = x # u"
  shows "\<exists>s1. reader_next s = (Inr x, s1) \<and> upcoming s1 = u"
proof (cases "reader_next s")
  case (Pair r s1)
  show ?thesis
  proof (cases r)
    case (Inl e)
    with Pair assms show ?thesis
      by (auto dest: reader_next_Inl)
  next
    case (Inr y)
    with Pair assms show ?thesis
      by (auto dest: reader_next_Inr(1))
  qed
qed

lemma requeue_line_At_line:
  assumes "rd_state s1 = At_line"
  shows "\<exists>s2. requeue_line s1 = (Inr (), s2)
            \<and> upcoming s2 = (rd_number s1, strip (rd_line s1)) # upcoming s1
            \<and> anomalies s2 = anomalies s1"
  using assms by (simp add: requeue_line_def upcoming_def)

lemma next_then_requeue:
  assumes "reader_next s = (Inr x, s1)"
  shows "\<exists>s2. requeue_line s1 = (Inr (), s2) \<and> upcoming s2 = upcoming s"
  using reader_next_Inr [OF assms] requeue_line_At_line [of s1] by auto

section \<open>The stats block parser\<close>

text \<open>
  The test results of a block as the specification words them: of the lines ahead, the
  longest run of lines that match the test result pattern, and of that run the lines
  whose action is not exactly \<^verbatim>\<open>test_pass\<close>.
\<close>

definition is_test_result :: "nat \<times> string \<Rightarrow> bool" where
  "is_test_result x = (re_test_result (snd x) \<noteq> None)"

definition failing_results :: "(nat \<times> string) list \<Rightarrow> (nat \<times> string) list" where
  "failing_results u =
     filter (\<lambda>x. re_test_result (snd x) \<noteq> Some ''test_pass'') (takeWhile is_test_result u)"

lemma test_results_loop_upcoming:
  "(case dropWhile is_test_result (upcoming s) of
      [] \<Rightarrow> \<exists>a s'. test_results_loop f s = (Inl (StopIteration a), s')
    | x # u \<Rightarrow> \<exists>s'. test_results_loop f s = (Inr (f @ failing_results (upcoming s)), s')
                   \<and> upcoming s' = x # u)"
proof (induction "upcoming s" arbitrary: s f)
  case Nil
  from upcoming_Nil [OF Nil [symmetric]] obtain a s1
    where "reader_next s = (Inl (StopIteration a), s1)"
    by blast
  with Nil [symmetric] show ?case
    by (simp add: test_results_loop.simps [of f s])
next
  case (Cons x u)
  from upcoming_Cons [OF Cons(2) [symmetric]] obtain s1
    where rd: "reader_next s = (Inr x, s1)" and u: "upcoming s1 = u"
    by blast
  obtain n l where x: "x = (n, l)"
    by (cases x)
  show ?case
  proof (cases "re_test_result l")
    case None
    from next_then_requeue [OF rd] obtain s2
      where "requeue_line s1 = (Inr (), s2)" "upcoming s2 = upcoming s"
      by blast
    with None rd x Cons(2) [symmetric] show ?thesis
      by (simp add: test_results_loop.simps [of f s] is_test_result_def failing_results_def)
  next
    case (Some g)
    let ?f = "if g \<noteq> ''test_pass'' then f @ [(n, l)] else f"
    from Some rd x have step: "test_results_loop f s = test_results_loop ?f s1"
      by (simp add: test_results_loop.simps [of f s])
    have up: "upcoming s = x # upcoming s1"
      using Cons(2) u by simp
    have d: "dropWhile is_test_result (upcoming s) = dropWhile is_test_result (upcoming s1)"
      using up Some x by (simp add: is_test_result_def)
    have fr: "f @ failing_results (upcoming s) = ?f @ failing_results (upcoming s1)"
      using up Some x by (simp add: is_test_result_def failing_results_def)
    show ?thesis
      unfolding d fr step by (rule Cons(1) [OF u [symmetric]])
  qed
qed


text \<open>
  Claim C8. When the stats block parser returns, its second loop started in a state
  \<open>s2\<close> (after the header and the stats list) and consumed exactly the longest run of
  lines ahead that match the test result pattern; of these it recorded, in order, the
  ones whose action is not exactly \<^verbatim>\<open>test_pass\<close>; the first line that does not
  match is the next line again afterwards, so it was requeued; and the block is reported
  as passed exactly when nothing was recorded. On any lines at all, the loop returns this
  way when a line that does not match is ahead, and ends at the end of the input
  otherwise.
\<close>

theorem stats_block_test_results:
  assumes "process_stats_block s c just_scan = (Inr (timestamp, passed), s', c')"
  shows "(\<exists>n l s1 s2 x u.
            reader_next s = (Inr (n, l), s1) \<and> re_stats_block l = Some timestamp
          \<and> stats_list_loop False s1 = (Inr (), s2)
          \<and> test_results_loop [] s2 = (Inr (failing_results (upcoming s2)), s')
          \<and> dropWhile is_test_result (upcoming s2) = x # u
          \<and> upcoming s' = x # u
          \<and> passed = (failing_results (upcoming s2) = []))
       \<and> (case dropWhile is_test_result (upcoming s0) of
            [] \<Rightarrow> \<exists>a t. test_results_loop f s0 = (Inl (StopIteration a), t)
          | x # u \<Rightarrow> \<exists>t. test_results_loop f s0 = (Inr (f @ failing_results (upcoming s0)), t)
                         \<and> upcoming t = x # u)"
proof -
  from assms obtain n l s1 s2 failed where
    rd: "reader_next s = (Inr (n, l), s1)" and ts: "re_stats_block l = Some timestamp" and
    l1: "stats_list_loop False s1 = (Inr (), s2)" and
    l2: "test_results_loop [] s2 = (Inr failed, s')" and p: "passed = (failed = [])"
    by (auto simp: process_stats_block_def split: prod.splits sum.splits option.splits)
  have "\<exists>x u. dropWhile is_test_result (upcoming s2) = x # u \<and> upcoming s' = x # u
            \<and> failed = failing_results (upcoming s2)"
    using test_results_loop_upcoming [where s = s2 and f = "[]"] l2
    by (cases "dropWhile is_test_result (upcoming s2)") auto
  with rd ts l1 l2 p test_results_loop_upcoming [where s = s0 and f = f] show ?thesis
    by blast
qed

definition example_block :: "string list" where
  "example_block =
     map ln [''steeplechase INFO | STATS (10):'', ''steeplechase INFO | some statistics'',
             ''steeplechase INFO |'', result_line ''test_pass'', result_line ''test_fail'',
             result_line ''test_pass'', ''steeplechase INFO | anything else'']"

theorem stats_block_test_results_witness:
  "\<exists>s' c'. process_stats_block (line_reader example_block fresh_process) create_client_results False
             = (Inr (''10'', False), s', c')
     \<and> (\<exists>n l s1 s2 x u.
            reader_next (line_reader example_block fresh_process) = (Inr (n, l), s1)
          \<and> re_stats_block l = Some ''10''
          \<and> stats_list_loop False s1 = (Inr (), s2)
          \<and> test_results_loop [] s2 = (Inr (failing_results (upcoming s2)), s')
          \<and> dropWhile is_test_result (upcoming s2) = x # u
          \<and> upcoming s' = x # u
          \<and> False = (failing_results (upcoming s2) = []))"
proof -
  obtain r s' c' where
    p: "process_stats_block (line_reader example_block fresh_process) create_client_results False
          = (r, s', c')"
    by (cases "process_stats_block (line_reader example_block fresh_process)
                 create_client_results False")
  have "fst (process_stats_block (line_reader example_block fresh_process)
               create_client_results False) = Inr (''10'', False)"
    by code_simp
  with p have q: "process_stats_block (line_reader example_block fresh_process)
                    create_client_results False = (Inr (''10'', False), s', c')"
    by simp
  from stats_block_test_results [OF q] q show ?thesis
    by blast
qed

section \<open>The failed blocks of a client\<close>









lemma finalize_failed_blocks [simp]: "c_failed_blocks (finalize t c) = c_failed_blocks c"
  by (simp add: finalize_def Let_def split: option.splits)















definition example_stats :: "string \<Rightarrow> string list \<Rightarrow> string list" where
  "example_stats timestamp actions =
     [''steeplechase INFO | STATS ('' @ timestamp @ ''):'', ''steeplechase INFO | some statistics'',
      ''steeplechase INFO |''] @ map result_line actions @ [''steeplechase INFO | anything else'']"








section \<open>Premature exit of a client\<close>

















section \<open>The session: timing and finalization\<close>

text \<open>
  The \<^verbatim>\<open>finally\<close> block runs on every exit of the loop: the client's results at the
  exit, whatever it is, are the ones of the loop with the block applied to them.
\<close>

lemma process_client_session_finalizes:
  "process_client_session D s c = (r, s', c') \<longleftrightarrow>
     (\<exists>c1 t. session_loop D s (c\<lparr>c_blocks := Some 0\<rparr>) init_track = (r, s', c1, t)
            \<and> c' = finalize t c1)"
  by (auto simp: process_client_session_def split: prod.splits)

lemma finalize_session_runtime:
  "c_session_runtime (finalize t c) =
     (case (last_dt t, first_dt t) of
        (Some l, Some f) \<Rightarrow> Some (whole_seconds (l - f))
      | _ \<Rightarrow> c_session_runtime c)"
  by (simp add: finalize_def Let_def split: option.splits)

lemma finalize_longest_pass:
  "c_longest_pass (finalize t c) =
     (case longest_pass_delta t of
        None \<Rightarrow> c_longest_pass c
      | Some d \<Rightarrow> if d = 0 then c_longest_pass c else Some (whole_seconds d))"
  by (simp add: finalize_def Let_def split: option.splits)

definition equal_timestamps_session :: "string list" where
  "equal_timestamps_session =
     map ln (example_stats ''10'' [''test_pass''] @ example_stats ''10'' [''test_pass'']
             @ [''steeplechase INFO | Test finished''])"

text \<open>
  Claim C4, at a session of two passing blocks with the same timestamp, which ends at
  its \<open>Test finished\<close> line: the loop has recorded a longest pass, of duration zero, and
  the block has seen both timestamps; it stores the session runtime, 0 seconds, and it
  does not store the longest pass, which stays unset.
\<close>

theorem zero_longest_pass_is_not_stored:
  "\<exists>s' c1 t.
     session_loop seconds_dt (line_reader equal_timestamps_session fresh_process)
       (create_client_results\<lparr>c_blocks := Some 0\<rparr>) init_track = (Inr (), s', c1, t)
   \<and> longest_pass_delta t = Some 0 \<and> first_dt t = Some 10000000 \<and> last_dt t = Some 10000000
   \<and> process_client_session seconds_dt (line_reader equal_timestamps_session fresh_process)
        create_client_results = (Inr (), s', finalize t c1)
   \<and> c_session_runtime (finalize t c1) = Some 0
   \<and> c_longest_pass (finalize t c1) = None"
proof -
  let ?s = "line_reader equal_timestamps_session fresh_process"
  let ?c = "create_client_results\<lparr>c_blocks := Some 0\<rparr>"
  obtain r s' c1 t where p: "session_loop seconds_dt ?s ?c init_track = (r, s', c1, t)"
    by (cases "session_loop seconds_dt ?s ?c init_track")
  have "fst (session_loop seconds_dt ?s ?c init_track) = Inr ()"
    by code_simp
  with p have q: "session_loop seconds_dt ?s ?c init_track = (Inr (), s', c1, t)"
    by simp
  have "snd (snd (snd (session_loop seconds_dt ?s ?c init_track)))
          = \<lparr>first_dt = Some 10000000, last_dt = Some 10000000, pass_start_dt = Some 10000000,
             longest_pass_delta = Some 0\<rparr>"
    by code_simp
  with p have t: "t = \<lparr>first_dt = Some 10000000, last_dt = Some 10000000,
                       pass_start_dt = Some 10000000, longest_pass_delta = Some 0\<rparr>"
    by simp
  have "c_longest_pass (fst (snd (snd (session_loop seconds_dt ?s ?c init_track)))) = None"
    by code_simp
  with p have c1: "c_longest_pass c1 = None"
    by simp
  from q have "process_client_session seconds_dt ?s create_client_results
                 = (Inr (), s', finalize t c1)"
    by (simp add: process_client_session_def)
  with q t c1 show ?thesis
    by (auto simp: finalize_session_runtime finalize_longest_pass whole_seconds_def)
qed


subsection \<open>The longest pass\<close>

text \<open>
  The longest pass as the specification words it, on the stats blocks of a session as
  pairs of timestamp and verdict: the blocks fall into maximal runs of consecutive
  passing blocks, a run has the deltas from its first timestamp to each later one, and
  the longest pass is the greatest delta of all runs, when there is one.
\<close>

fun pass_runs :: "(int \<times> bool) list \<Rightarrow> int list list" where
  "pass_runs [] = [[]]"
| "pass_runs ((dt, passed) # bs) =
     (if passed then (dt # hd (pass_runs bs)) # tl (pass_runs bs) else [] # pass_runs bs)"

fun run_deltas :: "int list \<Rightarrow> int list" where
  "run_deltas [] = []"
| "run_deltas (start # later) = map (\<lambda>dt. dt - start) later"

definition longest_pass_of :: "(int \<times> bool) list \<Rightarrow> int option" where
  "longest_pass_of bs =
     (let ds = concat (map run_deltas (pass_runs bs))
      in if ds = [] then None else Some (Max (set ds)))"

text \<open>What the session loop does to its timing state over these blocks.\<close>

definition track_blocks :: "(int \<times> bool) list \<Rightarrow> track \<Rightarrow> track" where
  "track_blocks bs t = foldl (\<lambda>t b. update_track (fst b) (snd b) t) t bs"

fun deltas_from :: "int option \<Rightarrow> (int \<times> bool) list \<Rightarrow> int list" where
  "deltas_from start [] = []"
| "deltas_from start ((dt, passed) # bs) =
     (if passed
      then (case start of
              None \<Rightarrow> deltas_from (Some dt) bs
            | Some st \<Rightarrow> (dt - st) # deltas_from start bs)
      else deltas_from None bs)"

fun longest_so_far :: "int option \<Rightarrow> int list \<Rightarrow> int option" where
  "longest_so_far m [] = m"
| "longest_so_far m (d # ds) =
     longest_so_far (Some (case m of None \<Rightarrow> d | Some x \<Rightarrow> max d x)) ds"

lemma pass_runs_not_empty [simp]: "pass_runs bs \<noteq> []"
  by (induction bs rule: pass_runs.induct) auto

lemma track_blocks_longest:
  "longest_pass_delta (track_blocks bs t)
     = longest_so_far (longest_pass_delta t) (deltas_from (pass_start_dt t) bs)"
proof (induction bs arbitrary: t)
  case Nil
  show ?case
    by (simp add: track_blocks_def)
next
  case (Cons b bs)
  obtain dt passed where b: "b = (dt, passed)"
    by (cases b)
  have step: "track_blocks ((dt, passed) # bs) t = track_blocks bs (update_track dt passed t)"
    by (simp add: track_blocks_def)
  show ?case
    unfolding b step Cons.IH
    by (simp add: update_track_def Let_def split: option.splits)
qed

lemma longest_so_far_Max:
  "longest_so_far m ds =
     (case m of
        None \<Rightarrow> if ds = [] then None else Some (Max (set ds))
      | Some x \<Rightarrow> Some (Max (insert x (set ds))))"
proof (induction ds arbitrary: m)
  case Nil
  show ?case
    by (simp split: option.splits)
next
  case (Cons d ds)
  show ?case
    by (cases m; cases "ds = []") (auto simp: Cons.IH max.commute insert_commute)
qed

lemma deltas_from_runs:
  "deltas_from start bs =
     (case start of
        None \<Rightarrow> concat (map run_deltas (pass_runs bs))
      | Some st \<Rightarrow> concat (map run_deltas ((st # hd (pass_runs bs)) # tl (pass_runs bs))))"
proof (induction bs arbitrary: start)
  case Nil
  show ?case
    by (simp split: option.splits)
next
  case (Cons b bs)
  obtain dt passed where b: "b = (dt, passed)"
    by (cases b)
  have ne: "pass_runs bs = hd (pass_runs bs) # tl (pass_runs bs)"
    by simp
  show ?case
    unfolding b
    by (cases start; cases passed) (use ne in \<open>auto simp: Cons.IH\<close>)
qed

lemma track_blocks_longest_pass:
  "longest_pass_delta (track_blocks bs init_track) = longest_pass_of bs"
  by (simp add: track_blocks_longest longest_so_far_Max deltas_from_runs init_track_def
        longest_pass_of_def Let_def)


definition repeated_timestamp_session :: "string list" where
  "repeated_timestamp_session =
     map ln (example_stats ''10'' [''test_pass'']
             @ example_stats ''12'' [''test_unexpected_fail'']
             @ example_stats ''15'' [''test_pass'']
             @ example_stats ''15'' [''test_pass'', ''test_pass'']
             @ [''steeplechase INFO | Test finished''])"

text \<open>
  Claim C2, at a session of four blocks: one passing at second 10, one failing at second
  12, two passing at second 15. The timing state at the end of the loop is the one of
  these four blocks, its longest pass is the one of the specification, zero (the run of
  the last two blocks), and the session reports no longest pass at all.
\<close>

theorem longest_pass_of_equal_timestamps_is_unset:
  "longest_pass_of [(10000000, True), (12000000, False), (15000000, True), (15000000, True)] = Some 0
   \<and> (\<exists>s' c' t.
         session_loop seconds_dt (line_reader repeated_timestamp_session fresh_process)
           (create_client_results\<lparr>c_blocks := Some 0\<rparr>) init_track = (Inr (), s', c', t)
       \<and> t = track_blocks [(10000000, True), (12000000, False), (15000000, True), (15000000, True)]
               init_track
       \<and> longest_pass_delta t = Some 0
       \<and> process_client_session seconds_dt (line_reader repeated_timestamp_session fresh_process)
            create_client_results = (Inr (), s', finalize t c')
       \<and> c_blocks (finalize t c') = Some 4
       \<and> c_longest_pass (finalize t c') = None)"
proof
  show "longest_pass_of [(10000000, True), (12000000, False), (15000000, True), (15000000, True)]
          = Some 0"
    by (simp add: longest_pass_of_def)
next
  let ?s = "line_reader repeated_timestamp_session fresh_process"
  let ?c = "create_client_results\<lparr>c_blocks := Some 0\<rparr>"
  let ?bs = "[(10000000, True), (12000000, False), (15000000, True), (15000000 :: int, True)]"
  obtain r s' c' t where p: "session_loop seconds_dt ?s ?c init_track = (r, s', c', t)"
    by (cases "session_loop seconds_dt ?s ?c init_track")
  have "fst (session_loop seconds_dt ?s ?c init_track) = Inr ()"
    by code_simp
  with p have q: "session_loop seconds_dt ?s ?c init_track = (Inr (), s', c', t)"
    by simp
  have "snd (snd (snd (session_loop seconds_dt ?s ?c init_track))) = track_blocks ?bs init_track"
    by code_simp
  with p have t: "t = track_blocks ?bs init_track"
    by simp
  have l: "longest_pass_delta (track_blocks ?bs init_track) = Some 0"
    by (simp add: track_blocks_longest_pass longest_pass_of_def)
  have "c_longest_pass (fst (snd (snd (session_loop seconds_dt ?s ?c init_track)))) = None"
    and "c_blocks (fst (snd (snd (session_loop seconds_dt ?s ?c init_track)))) = Some 4"
    by code_simp+
  with p have c: "c_longest_pass c' = None" "c_blocks c' = Some 4"
    by simp_all
  have b: "c_blocks (finalize t c') = c_blocks c'"
    by (simp add: finalize_def Let_def split: option.splits)
  from q have "process_client_session seconds_dt ?s create_client_results
                 = (Inr (), s', finalize t c')"
    by (simp add: process_client_session_def)
  with q t l c b show "\<exists>s' c' t.
         session_loop seconds_dt ?s ?c init_track = (Inr (), s', c', t)
       \<and> t = track_blocks ?bs init_track
       \<and> longest_pass_delta t = Some 0
       \<and> process_client_session seconds_dt ?s create_client_results = (Inr (), s', finalize t c')
       \<and> c_blocks (finalize t c') = Some 4
       \<and> c_longest_pass (finalize t c') = None"
    by (auto simp: finalize_longest_pass)
qed

section \<open>The failure lists of a client\<close>

text \<open>
  The lines the setup loop looks at, of the lines ahead: those before the client end
  marker, up to the session start line.
\<close>

fun setup_lines :: "(nat \<times> string) list \<Rightarrow> (nat \<times> string) list" where
  "setup_lines [] = []"
| "setup_lines (x # u) =
     (if re_client_end (snd x) then []
      else if re_session_start (snd x) then [x]
      else x # setup_lines u)"

definition is_test_failure :: "nat \<times> string \<Rightarrow> bool" where
  "is_test_failure x = re_test_failure (snd x)"

lemma process_client_setup_failures:
  "process_client_setup s c = (r, s', c') \<Longrightarrow>
     c_setup_failures c' = c_setup_failures c @ filter is_test_failure (setup_lines (upcoming s))"
proof (induction rule: process_client_setup_induct)
  case (eof s e)
  then show ?case
    by (auto dest: reader_next_Inl(1))
next
  case (early s n l)
  then show ?case
    by (auto dest: reader_next_Inr(1))
next
  case (start s c n l s1)
  then show ?case
    by (auto simp: append_failure_def is_test_failure_def dest: reader_next_Inr(1))
next
  case (other s c n l s1)
  then show ?case
    by (auto simp: append_failure_def is_test_failure_def dest: reader_next_Inr(1))
qed

lemma process_stats_block_frame:
  assumes "process_stats_block s c js = (r, s', c')"
  shows "c_session_failures c' = c_session_failures c"
    and "c_cleanup_failures c' = c_cleanup_failures c"
    and "c_setup_failures c' = c_setup_failures c"
  using assms
  by (auto simp: process_stats_block_def split: prod.splits sum.splits option.splits if_splits)

lemma session_stats_frame:
  assumes "session_stats D l s c t = (r, s', c', t')"
  shows "c_session_failures c' = c_session_failures c"
  using assms
  by (auto simp: session_stats_def split: if_splits prod.splits sum.splits option.splits
           dest!: process_stats_block_frame(1))

lemma session_loop_failures:
  "session_loop D s c t = (r, s', c', t') \<Longrightarrow>
     \<exists>added. c_session_failures c' = c_session_failures c @ added \<and> list_all is_test_failure added"
proof (induction rule: session_loop_induct)
  case (failed s c t n l s1 e)
  then show ?case
    by (auto dest: session_stats_frame)
next
  case (round s c t n l s1 u s2 c2 t2)
  from session_stats_frame [OF round(4)] round.IH show ?case
    by (auto simp: append_failure_def is_test_failure_def)
qed auto

lemma session_loop_round_failure:
  assumes "session_loop D s c t = (r, s', c', t')"
    and "reader_next s = (Inr (n, l), s1)" and "\<not> re_client_end l" and "\<not> re_test_finished l"
    and "session_stats D l s1 c t = (Inr u, s2, c2, t2)"
  shows "\<exists>more. c_session_failures c'
           = c_session_failures c @ (if re_test_failure l then [(n, l)] else []) @ more"
proof -
  let ?c3 = "c2\<lparr>c_session_failures :=
               append_failure (re_test_failure l) (n, l) (c_session_failures c2)\<rparr>"
  from assms have "session_loop D s2 ?c3 t2 = (r, s', c', t')"
    by (simp add: session_loop.simps [of D s])
  from session_loop_failures [OF this] session_stats_frame [OF assms(5)] show ?thesis
    by (auto simp: append_failure_def)
qed

lemma cleanup_stats_frame:
  assumes "cleanup_stats n l s c = (r, s', c')"
  shows "c_cleanup_failures c' = c_cleanup_failures c"
  using assms
  by (auto simp: cleanup_stats_def split: if_splits prod.splits sum.splits option.splits
           dest!: process_stats_block_frame(2))

lemma process_client_cleanup_failures:
  "process_client_cleanup s c = (r, s', c') \<Longrightarrow>
     \<exists>added. c_cleanup_failures c' = c_cleanup_failures c @ added \<and> list_all is_test_failure added"
proof (induction rule: process_client_cleanup_induct)
  case (failed s c n l s1 e)
  then show ?case
    by (auto dest: cleanup_stats_frame)
next
  case (round s c n l s1 u s2 c2)
  from cleanup_stats_frame [OF round(3)] round.IH show ?case
    by (auto simp: append_failure_def is_test_failure_def)
qed auto

lemma process_client_cleanup_round_failure:
  assumes "process_client_cleanup s c = (r, s', c')"
    and "reader_next s = (Inr (n, l), s1)" and "\<not> re_client_end l"
    and "cleanup_stats n l s1 c = (Inr u, s2, c2)"
  shows "\<exists>more. c_cleanup_failures c'
           = c_cleanup_failures c @ (if re_test_failure l then [(n, l)] else []) @ more"
proof -
  let ?c3 = "c2\<lparr>c_cleanup_failures :=
               append_failure (re_test_failure l) (n, l) (c_cleanup_failures c2)\<rparr>"
  from assms have "process_client_cleanup s2 ?c3 = (r, s', c')"
    by (simp add: process_client_cleanup.simps [of s])
  from process_client_cleanup_failures [OF this] cleanup_stats_frame [OF assms(4)] show ?thesis
    by (auto simp: append_failure_def)
qed


text \<open>
  Claim C7, as stated, fails: a test result line whose action is \<open>test_known_fail\<close>, not
  \<^verbatim>\<open>test_pass\<close>, is read by the setup loop and not recorded.
\<close>

definition known_fail_setup :: "string list" where
  "known_fail_setup =
     map ln [''steeplechase INFO | starting'', result_line ''test_known_fail'',
             ''steeplechase INFO | Run step: INTERVAL_COMMAND'']"

theorem other_failing_actions_are_not_recorded:
  "re_test_result (result_line ''test_known_fail'') = Some ''test_known_fail''
   \<and> upcoming (line_reader known_fail_setup fresh_process)
       = [(1, ''steeplechase INFO | starting''), (2, result_line ''test_known_fail''),
          (3, ''steeplechase INFO | Run step: INTERVAL_COMMAND'')]
   \<and> (\<exists>s' c'. process_client_setup (line_reader known_fail_setup fresh_process)
                  create_client_results = (Inr (), s', c')
              \<and> c_setup_failures c' = [])"
proof (intro conjI)
  show "re_test_result (result_line ''test_known_fail'') = Some ''test_known_fail''"
    by code_simp
  show "upcoming (line_reader known_fail_setup fresh_process)
       = [(1, ''steeplechase INFO | starting''), (2, result_line ''test_known_fail''),
          (3, ''steeplechase INFO | Run step: INTERVAL_COMMAND'')]"
    by code_simp
  let ?s = "line_reader known_fail_setup fresh_process"
  obtain r s' c' where p: "process_client_setup ?s create_client_results = (r, s', c')"
    by (cases "process_client_setup ?s create_client_results")
  have "fst (process_client_setup ?s create_client_results) = Inr ()"
    and "c_setup_failures (snd (snd (process_client_setup ?s create_client_results))) = []"
    by code_simp+
  with p show "\<exists>s' c'. process_client_setup ?s create_client_results = (Inr (), s', c')
              \<and> c_setup_failures c' = []"
    by simp
qed

text \<open>
  Claim C7, amended. The setup failures gained by a run of the setup loop are exactly,
  in order and with their line numbers, the lines matching the test failure pattern
  \<^verbatim>\<open>.*{"action":"test_unexpected_fail"\<close> among the lines the loop looks at: those
  before the client end marker, up to the session start line. The session failures and
  the cleanup failures only gain lines matching that pattern; and the line that the
  session loop or the cleanup loop reads itself at the start of a round, when it does
  not end the phase and the round's stats block, if any, is parsed, is recorded, with its
  number, exactly when it matches the pattern.
\<close>

theorem failure_lists_hold_unexpected_failures:
  "(process_client_setup s c = (r, s', c') \<longrightarrow>
      c_setup_failures c' = c_setup_failures c @ filter is_test_failure (setup_lines (upcoming s)))
 \<and> (session_loop D s1 c1 t1 = (r1, s1', c1', t1') \<longrightarrow>
      (\<exists>added. c_session_failures c1' = c_session_failures c1 @ added
               \<and> list_all is_test_failure added))
 \<and> (session_loop D s2 c2 t2 = (r2, s2', c2', t2') \<longrightarrow> reader_next s2 = (Inr (n2, l2), sa) \<longrightarrow>
      \<not> re_client_end l2 \<longrightarrow> \<not> re_test_finished l2 \<longrightarrow>
      session_stats D l2 sa c2 t2 = (Inr u2, sb, cb, tb) \<longrightarrow>
      (\<exists>more. c_session_failures c2'
                = c_session_failures c2 @ (if re_test_failure l2 then [(n2, l2)] else []) @ more))
 \<and> (process_client_cleanup s3 c3 = (r3, s3', c3') \<longrightarrow>
      (\<exists>added. c_cleanup_failures c3' = c_cleanup_failures c3 @ added
               \<and> list_all is_test_failure added))
 \<and> (process_client_cleanup s4 c4 = (r4, s4', c4') \<longrightarrow> reader_next s4 = (Inr (n4, l4), sc) \<longrightarrow>
      \<not> re_client_end l4 \<longrightarrow> cleanup_stats n4 l4 sc c4 = (Inr u4, sd, cd) \<longrightarrow>
      (\<exists>more. c_cleanup_failures c4'
                = c_cleanup_failures c4 @ (if re_test_failure l4 then [(n4, l4)] else []) @ more))"
  by (intro conjI impI)
     (blast intro: process_client_setup_failures session_loop_failures session_loop_round_failure
                   process_client_cleanup_failures process_client_cleanup_round_failure)+

definition failing_phase :: "string list" where
  "failing_phase =
     map ln [result_line ''test_unexpected_fail'', ''steeplechase INFO | in between'',
             ''steeplechase INFO | Run step: INTERVAL_COMMAND'',
             ''steeplechase INFO | Test finished'', ''steeplechase INFO | <<<<<<<'']"

theorem failure_lists_hold_unexpected_failures_witness:
  "(\<exists>s' c'. process_client_setup (line_reader failing_phase fresh_process) create_client_results
               = (Inr (), s', c')
           \<and> c_setup_failures c' = [(1, result_line ''test_unexpected_fail'')])
 \<and> (\<exists>sa s' c' t'.
       session_loop seconds_dt (line_reader failing_phase fresh_process) create_client_results
         init_track = (Inr (), s', c', t')
     \<and> reader_next (line_reader failing_phase fresh_process)
         = (Inr (1, result_line ''test_unexpected_fail''), sa)
     \<and> \<not> re_client_end (result_line ''test_unexpected_fail'')
     \<and> \<not> re_test_finished (result_line ''test_unexpected_fail'')
     \<and> session_stats seconds_dt (result_line ''test_unexpected_fail'') sa create_client_results
         init_track = (Inr (), sa, create_client_results, init_track)
     \<and> (\<exists>more. c_session_failures c' = [(1, result_line ''test_unexpected_fail'')] @ more
              \<and> list_all is_test_failure more))
 \<and> (\<exists>sa s' c'.
       process_client_cleanup (line_reader failing_phase fresh_process) create_client_results
         = (Inr (), s', c')
     \<and> reader_next (line_reader failing_phase fresh_process)
         = (Inr (1, result_line ''test_unexpected_fail''), sa)
     \<and> \<not> re_client_end (result_line ''test_unexpected_fail'')
     \<and> cleanup_stats 1 (result_line ''test_unexpected_fail'') sa create_client_results
         = (Inr (), sa, create_client_results)
     \<and> (\<exists>more. c_cleanup_failures c' = [(1, result_line ''test_unexpected_fail'')] @ more
              \<and> list_all is_test_failure more))"
proof (intro conjI)
  note claim = failure_lists_hold_unexpected_failures
  let ?s = "line_reader failing_phase fresh_process"
  let ?l = "result_line ''test_unexpected_fail''"
  have up: "filter is_test_failure (setup_lines (upcoming ?s)) = [(1, ?l)]"
    by code_simp
  obtain r s' c' where p: "process_client_setup ?s create_client_results = (r, s', c')"
    by (cases "process_client_setup ?s create_client_results")
  have "fst (process_client_setup ?s create_client_results) = Inr ()"
    by code_simp
  with p have q: "process_client_setup ?s create_client_results = (Inr (), s', c')"
    by simp
  from claim [THEN conjunct1, rule_format, OF q] up q
  show "\<exists>s' c'. process_client_setup ?s create_client_results = (Inr (), s', c')
           \<and> c_setup_failures c' = [(1, ?l)]"
    by (auto simp: create_client_results_def)
next
  note claim = failure_lists_hold_unexpected_failures
  let ?s = "line_reader failing_phase fresh_process"
  let ?l = "result_line ''test_unexpected_fail''"
  let ?c = create_client_results
  obtain x sa where n: "reader_next ?s = (x, sa)"
    by (cases "reader_next ?s")
  have "fst (reader_next ?s) = Inr (1, ?l)"
    by code_simp
  with n have rd: "reader_next ?s = (Inr (1, ?l), sa)"
    by simp
  have e: "\<not> re_client_end ?l" and f: "\<not> re_test_finished ?l" and m: "re_stats_block ?l = None"
    and tf: "re_test_failure ?l"
    by code_simp+
  from m have st: "session_stats seconds_dt ?l sa ?c init_track = (Inr (), sa, ?c, init_track)"
    by (simp add: session_stats_def)
  obtain r s' c' t' where p: "session_loop seconds_dt ?s ?c init_track = (r, s', c', t')"
    by (cases "session_loop seconds_dt ?s ?c init_track")
  have "fst (session_loop seconds_dt ?s ?c init_track) = Inr ()"
    by code_simp
  with p have q: "session_loop seconds_dt ?s ?c init_track = (Inr (), s', c', t')"
    by simp
  from claim [THEN conjunct2, THEN conjunct1, rule_format, OF q]
    claim [THEN conjunct2, THEN conjunct2, THEN conjunct1, rule_format, OF q rd e f st] tf
  have "\<exists>more. c_session_failures c' = [(1, ?l)] @ more \<and> list_all is_test_failure more"
    by (auto simp: create_client_results_def)
  with q rd e f st show "\<exists>sa s' c' t'.
       session_loop seconds_dt ?s ?c init_track = (Inr (), s', c', t')
     \<and> reader_next ?s = (Inr (1, ?l), sa)
     \<and> \<not> re_client_end ?l \<and> \<not> re_test_finished ?l
     \<and> session_stats seconds_dt ?l sa ?c init_track = (Inr (), sa, ?c, init_track)
     \<and> (\<exists>more. c_session_failures c' = [(1, ?l)] @ more \<and> list_all is_test_failure more)"
    by blast
next
  note claim = failure_lists_hold_unexpected_failures
  let ?s = "line_reader failing_phase fresh_process"
  let ?l = "result_line ''test_unexpected_fail''"
  let ?c = create_client_results
  obtain x sa where n: "reader_next ?s = (x, sa)"
    by (cases "reader_next ?s")
  have "fst (reader_next ?s) = Inr (1, ?l)"
    by code_simp
  with n have rd: "reader_next ?s = (Inr (1, ?l), sa)"
    by simp
  have e: "\<not> re_client_end ?l" and m: "re_stats_block ?l = None" and tf: "re_test_failure ?l"
    by code_simp+
  from m have st: "cleanup_stats 1 ?l sa ?c = (Inr (), sa, ?c)"
    by (simp add: cleanup_stats_def)
  obtain r s' c' where p: "process_client_cleanup ?s ?c = (r, s', c')"
    by (cases "process_client_cleanup ?s ?c")
  have "fst (process_client_cleanup ?s ?c) = Inr ()"
    by code_simp
  with p have q: "process_client_cleanup ?s ?c = (Inr (), s', c')"
    by simp
  from claim [THEN conjunct2, THEN conjunct2, THEN conjunct2, THEN conjunct1, rule_format, OF q]
    claim [THEN conjunct2, THEN conjunct2, THEN conjunct2, THEN conjunct2, rule_format, OF q rd e st]
    tf
  have "\<exists>more. c_cleanup_failures c' = [(1, ?l)] @ more \<and> list_all is_test_failure more"
    by (auto simp: create_client_results_def)
  with q rd e st show "\<exists>sa s' c'.
       process_client_cleanup ?s ?c = (Inr (), s', c')
     \<and> reader_next ?s = (Inr (1, ?l), sa)
     \<and> \<not> re_client_end ?l
     \<and> cleanup_stats 1 ?l sa ?c = (Inr (), sa, ?c)
     \<and> (\<exists>more. c_cleanup_failures c' = [(1, ?l)] @ more \<and> list_all is_test_failure more)"
    by blast
qed

end
